theory Spec2Isabelle
  imports Complex_Main "HOL-Library.Word" "HOL-Library.Log_Nat"
begin

unbundle bit_operations_syntax

section \<open>Machine types and failures\<close>

type_synonym u8 = "8 word"
type_synonym u16 = "16 word"

text \<open>
  Behaviour the C standard leaves undefined is a value of the model: a buffer access
  outside the allocated object, and the conversion of a floating value whose integral
  part does not fit the unsigned target type (C11 6.3.1.4), which includes NaN and the
  infinities.
\<close>

datatype error = OutOfBounds | UndefinedConversion

definition bind_err :: "error + 'a \<Rightarrow> ('a \<Rightarrow> error + 'b) \<Rightarrow> error + 'b" where
  "bind_err m f = (case m of Inl e \<Rightarrow> Inl e | Inr a \<Rightarrow> f a)"

text \<open>\<^verbatim>\<open>for (int i = 0; i < n; i++) body(i)\<close> on a threaded state.\<close>

primrec for_loop :: "nat \<Rightarrow> (nat \<Rightarrow> 's \<Rightarrow> error + 's) \<Rightarrow> 's \<Rightarrow> error + 's" where
  "for_loop 0 body s = Inr s"
| "for_loop (Suc n) body s = bind_err (for_loop n body s) (body n)"

definition load :: "'a list \<Rightarrow> nat \<Rightarrow> error + 'a" where
  "load buffer i = (if i < length buffer then Inr (buffer ! i) else Inl OutOfBounds)"

definition store :: "'a list \<Rightarrow> nat \<Rightarrow> 'a \<Rightarrow> error + 'a list" where
  "store buffer i v = (if i < length buffer then Inr (buffer[i := v]) else Inl OutOfBounds)"

section \<open>Single-precision arithmetic\<close>

text \<open>
  The type \<^verbatim>\<open>float\<close> is IEEE 754 binary32 with round-to-nearest, ties-to-even, and every
  \<^verbatim>\<open>float\<close> operation is evaluated in that format. A finite value is the rational it
  denotes. The two zeros are identified: the program's only divisor is the difference of
  two converted \<^verbatim>\<open>uint16_t\<close> values, which is never the negative zero.
\<close>

datatype f32 = Finite rat | PInf | NInf | NaN

definition pow2 :: "int \<Rightarrow> rat" where
  "pow2 k = (if 0 \<le> k then 2 ^ nat k else 1 / 2 ^ nat (- k))"

text \<open>The binary exponent of a positive rational: \<open>pow2 (ilog2 x) \<le> x < pow2 (ilog2 x + 1)\<close>.\<close>

definition ilog2 :: "rat \<Rightarrow> int" where
  "ilog2 x = (let (p, q) = quotient_of x; k = bitlen p - bitlen q
              in if pow2 k \<le> x then k else k - 1)"

definition round_even :: "rat \<Rightarrow> int" where
  "round_even s = (let f = \<lfloor>s\<rfloor>; r = s - of_int f
                   in if r < 1 / 2 then f else if 1 / 2 < r then f + 1
                      else if even f then f else f + 1)"

text \<open>
  Rounding of an exact result to binary32: 24 significant bits, the exponent bounded
  below by -126 (subnormals), overflow to infinity from \<open>2 ^ 128\<close>.
\<close>

definition round_f32 :: "rat \<Rightarrow> f32" where
  "round_f32 x = (if x = 0 then Finite 0 else
     let a = \<bar>x\<bar>; e = max (ilog2 a) (- 126); q = pow2 (e - 23);
         r = of_int (round_even (a / q)) * q
     in if pow2 128 \<le> r then (if 0 < x then PInf else NInf) else Finite (sgn x * r))"

definition f32_of_int :: "int \<Rightarrow> f32" where
  "f32_of_int n = round_f32 (of_int n)"

definition inf_of_sign :: "rat \<Rightarrow> f32" where
  "inf_of_sign s = (if 0 < s then PInf else if s < 0 then NInf else NaN)"

fun f32_sgn :: "f32 \<Rightarrow> rat" where
  "f32_sgn (Finite a) = sgn a"
| "f32_sgn PInf = 1"
| "f32_sgn NInf = - 1"
| "f32_sgn NaN = 0"

fun f32_sub :: "f32 \<Rightarrow> f32 \<Rightarrow> f32" where
  "f32_sub (Finite a) (Finite b) = round_f32 (a - b)"
| "f32_sub NaN y = NaN"
| "f32_sub x NaN = NaN"
| "f32_sub PInf PInf = NaN"
| "f32_sub NInf NInf = NaN"
| "f32_sub PInf y = PInf"
| "f32_sub NInf y = NInf"
| "f32_sub x PInf = NInf"
| "f32_sub x NInf = PInf"

fun f32_mul :: "f32 \<Rightarrow> f32 \<Rightarrow> f32" where
  "f32_mul (Finite a) (Finite b) = round_f32 (a * b)"
| "f32_mul NaN y = NaN"
| "f32_mul x NaN = NaN"
| "f32_mul x y = inf_of_sign (f32_sgn x * f32_sgn y)"

fun f32_div :: "f32 \<Rightarrow> f32 \<Rightarrow> f32" where
  "f32_div (Finite a) (Finite b) = (if b = 0 then inf_of_sign (sgn a) else round_f32 (a / b))"
| "f32_div NaN y = NaN"
| "f32_div x NaN = NaN"
| "f32_div (Finite a) y = Finite 0"
| "f32_div x (Finite b) = inf_of_sign (f32_sgn x * (if b < 0 then - 1 else 1))"
| "f32_div x y = NaN"

text \<open>\<^verbatim>\<open>round()\<close> of math.h: to the nearest integer, halfway cases away from zero.\<close>

definition round_away :: "rat \<Rightarrow> int" where
  "round_away x = (if 0 \<le> x then \<lfloor>x + 1 / 2\<rfloor> else - \<lfloor>- x + 1 / 2\<rfloor>)"

fun c_round :: "f32 \<Rightarrow> f32" where
  "c_round (Finite x) = Finite (of_int (round_away x))"
| "c_round x = x"

text \<open>
  Conversion of a floating value to an unsigned integer type of the given width: the
  fraction is discarded; the behaviour is undefined when the integral part is not
  representable.
\<close>

definition trunc :: "rat \<Rightarrow> int" where
  "trunc x = (if 0 \<le> x then \<lfloor>x\<rfloor> else \<lceil>x\<rceil>)"

fun to_unsigned :: "nat \<Rightarrow> f32 \<Rightarrow> error + int" where
  "to_unsigned bits (Finite x) =
     (if 0 \<le> trunc x \<and> trunc x < 2 ^ bits then Inr (trunc x) else Inl UndefinedConversion)"
| "to_unsigned bits x = Inl UndefinedConversion"

definition to_u16 :: "f32 \<Rightarrow> error + u16" where
  "to_u16 f = bind_err (to_unsigned 16 f) (\<lambda>t. Inr (word_of_int t))"

definition to_u8 :: "f32 \<Rightarrow> error + u8" where
  "to_u8 f = bind_err (to_unsigned 8 f) (\<lambda>t. Inr (word_of_int t))"

section \<open>Configuration of bayer2tga.c\<close>

text \<open>
  The frame geometry is fixed by the macros \<^verbatim>\<open>WIDTH\<close> and \<^verbatim>\<open>HEIGHT\<close>. The functions below
  take the two values as parameters \<open>w\<close> and \<open>h\<close>; the program as shipped is the instance
  \<open>w = WIDTH\<close>, \<open>h = HEIGHT\<close>.
\<close>

definition WIDTH :: nat where "WIDTH = 1920"
definition HEIGHT :: nat where "HEIGHT = 1080"

definition RG10_BITS :: nat where "RG10_BITS = 10"
definition RGB_BITS :: nat where "RGB_BITS = 8"
definition MAX_RG10 :: int where "MAX_RG10 = push_bit RG10_BITS 1 - 1"
definition MAX_RGB :: int where "MAX_RGB = push_bit RGB_BITS 1 - 1"

definition RG10_COLOR_SIZE :: nat where "RG10_COLOR_SIZE = 2"
definition RGB_COLOR_SIZE :: nat where "RGB_COLOR_SIZE = 1"
definition RG10_COLORS :: nat where "RG10_COLORS = 4"
definition RGB_COLORS :: nat where "RGB_COLORS = 3"

definition RG10_R :: nat where "RG10_R = 0"
definition RG10_Gr :: nat where "RG10_Gr = RG10_R + 1"
definition RG10_Gb :: "nat \<Rightarrow> nat" where "RG10_Gb w = w * RG10_COLOR_SIZE"
definition RG10_B :: "nat \<Rightarrow> nat" where "RG10_B w = RG10_Gb w + 1"

definition RGB_R :: nat where "RGB_R = 2"
definition RGB_G :: nat where "RGB_G = 1"
definition RGB_B :: nat where "RGB_B = 0"

text \<open>Sizes in bytes, as passed to \<^verbatim>\<open>malloc\<close>, \<^verbatim>\<open>fread\<close> and \<^verbatim>\<open>fwrite\<close>.\<close>

definition RG10_SIZE :: "nat \<Rightarrow> nat \<Rightarrow> nat" where
  "RG10_SIZE w h = w * h * RG10_COLORS * RG10_COLOR_SIZE"

definition RGB_SIZE :: "nat \<Rightarrow> nat \<Rightarrow> nat" where
  "RGB_SIZE w h = w * h * RGB_COLORS * RGB_COLOR_SIZE"

text \<open>
  Offsets added to a \<^verbatim>\<open>uint16_t *\<close> and to a \<^verbatim>\<open>uint8_t *\<close>: indices of elements. The
  frame buffer of \<open>RG10_SIZE w h\<close> bytes holds \<open>w * h * RG10_COLORS\<close> samples.
\<close>

definition RG10_LOCATION :: "nat \<Rightarrow> nat \<Rightarrow> nat \<Rightarrow> nat \<Rightarrow> nat" where
  "RG10_LOCATION w x y color = y * w * RG10_COLORS + x * RG10_COLOR_SIZE + color"

definition RGB_LOCATION :: "nat \<Rightarrow> nat \<Rightarrow> nat \<Rightarrow> nat \<Rightarrow> nat" where
  "RGB_LOCATION w x y color = y * w * RGB_COLORS + x * RGB_COLORS + color"

definition NORM :: "int \<Rightarrow> f32" where
  "NORM v = f32_mul (f32_of_int v) (f32_div (f32_of_int MAX_RGB) (f32_of_int MAX_RG10))"

section \<open>min\_max\_frame\<close>

definition min_max_px ::
  "nat \<Rightarrow> u16 list \<Rightarrow> nat \<Rightarrow> nat \<Rightarrow> u16 \<times> u16 \<Rightarrow> error + u16 \<times> u16" where
  "min_max_px w buffer y x s =
     bind_err (load buffer (RG10_LOCATION w x y (RG10_Gb w))) (\<lambda>Gb.
     bind_err (load buffer (RG10_LOCATION w x y RG10_Gr)) (\<lambda>Gr.
     bind_err (load buffer (RG10_LOCATION w x y (RG10_B w))) (\<lambda>B.
     bind_err (load buffer (RG10_LOCATION w x y RG10_R)) (\<lambda>R.
       let (mn, mx) = s;
           mx = (if mx < Gb then Gb else mx);
           mx = (if mx < Gr then Gr else mx);
           mx = (if mx < B then B else mx);
           mx = (if mx < R then R else mx);
           mn = (if mn > Gb then Gb else mn);
           mn = (if mn > Gr then Gr else mn);
           mn = (if mn > B then B else mn);
           mn = (if mn > R then R else mn)
       in Inr (mn, mx)))))"

text \<open>The result is the pair \<open>(min, max)\<close> written through the two pointers.\<close>

definition min_max_frame :: "nat \<Rightarrow> nat \<Rightarrow> u16 list \<Rightarrow> error + u16 \<times> u16" where
  "min_max_frame w h buffer =
     for_loop h (\<lambda>y. for_loop w (\<lambda>x. min_max_px w buffer y x)) (65535, 0)"

section \<open>normalize\_frame\<close>

text \<open>
  One statement
  \<^verbatim>\<open>*(buffer + location) = round((*(buffer + location) - min) * mult)\<close>;
  \<open>normalize_sample\<close> is its right-hand side converted to the type of the target: the
  subtraction is on \<^verbatim>\<open>int\<close> after promotion, the product on \<^verbatim>\<open>float\<close>, and the
  \<^verbatim>\<open>double\<close> returned by \<^verbatim>\<open>round\<close> is converted to \<^verbatim>\<open>uint16_t\<close>.
\<close>

definition normalize_sample :: "u16 \<Rightarrow> f32 \<Rightarrow> u16 \<Rightarrow> error + u16" where
  "normalize_sample mn mult v = to_u16 (c_round (f32_mul (f32_of_int (uint v - uint mn)) mult))"

definition normalize_at :: "nat \<Rightarrow> u16 \<Rightarrow> f32 \<Rightarrow> u16 list \<Rightarrow> error + u16 list" where
  "normalize_at location mn mult buffer =
     bind_err (load buffer location) (\<lambda>v.
     bind_err (normalize_sample mn mult v) (\<lambda>r.
       store buffer location r))"

definition normalize_px ::
  "nat \<Rightarrow> u16 \<Rightarrow> f32 \<Rightarrow> nat \<Rightarrow> nat \<Rightarrow> u16 list \<Rightarrow> error + u16 list" where
  "normalize_px w mn mult y x buffer =
     bind_err (normalize_at (RG10_LOCATION w x y (RG10_Gb w)) mn mult buffer) (\<lambda>buffer.
     bind_err (normalize_at (RG10_LOCATION w x y RG10_Gr) mn mult buffer) (\<lambda>buffer.
     bind_err (normalize_at (RG10_LOCATION w x y RG10_R) mn mult buffer) (\<lambda>buffer.
       normalize_at (RG10_LOCATION w x y (RG10_B w)) mn mult buffer)))"

text \<open>\<^verbatim>\<open>float mult = 1023 / ((float)max - (float)min)\<close>\<close>

definition frame_mult :: "u16 \<Rightarrow> u16 \<Rightarrow> f32" where
  "frame_mult mn mx =
     f32_div (f32_of_int 1023) (f32_sub (f32_of_int (uint mx)) (f32_of_int (uint mn)))"

definition normalize_frame :: "nat \<Rightarrow> nat \<Rightarrow> u16 list \<Rightarrow> error + u16 list" where
  "normalize_frame w h buffer =
     bind_err (min_max_frame w h buffer) (\<lambda>(mn, mx).
       let mult = frame_mult mn mx
       in for_loop h (\<lambda>y. for_loop w (\<lambda>x. normalize_px w mn mult y x)) buffer)"

section \<open>debayer\<close>

definition debayer_px ::
  "nat \<Rightarrow> u16 list \<Rightarrow> nat \<Rightarrow> nat \<Rightarrow> u8 list \<Rightarrow> error + u8 list" where
  "debayer_px w buffer y x img =
     bind_err (load buffer (RG10_LOCATION w x y RG10_R)) (\<lambda>R.
     bind_err (to_u8 (NORM (uint R))) (\<lambda>r.
     bind_err (store img (RGB_LOCATION w x y RGB_R) r) (\<lambda>img.
     bind_err (load buffer (RG10_LOCATION w x y (RG10_B w))) (\<lambda>B.
     bind_err (to_u8 (NORM (uint B))) (\<lambda>b.
     bind_err (store img (RGB_LOCATION w x y RGB_B) b) (\<lambda>img.
     bind_err (load buffer (RG10_LOCATION w x y (RG10_Gb w))) (\<lambda>Gb.
     bind_err (load buffer (RG10_LOCATION w x y RG10_Gr)) (\<lambda>Gr.
     bind_err (to_u8 (NORM ((uint Gb + uint Gr) div 2))) (\<lambda>g.
       store img (RGB_LOCATION w x y RGB_G) g)))))))))"

text \<open>The two loops of \<^verbatim>\<open>debayer\<close>, on an image buffer with the given initial content.\<close>

definition debayer_into :: "nat \<Rightarrow> nat \<Rightarrow> u16 list \<Rightarrow> u8 list \<Rightarrow> error + u8 list" where
  "debayer_into w h buffer img =
     for_loop h (\<lambda>y. for_loop w (\<lambda>x. debayer_px w buffer y x)) img"

text \<open>
  \<^verbatim>\<open>malloc(RGB_SIZE)\<close> returns \<open>RGB_SIZE w h\<close> bytes of indeterminate content; the loops
  overwrite every one of them (lemma \<open>debayer_into_any\<close>), so the content is taken as 0.
\<close>

definition debayer :: "nat \<Rightarrow> nat \<Rightarrow> u16 list \<Rightarrow> error + u8 list" where
  "debayer w h buffer = debayer_into w h buffer (replicate (RGB_SIZE w h) 0)"

section \<open>Files and the process\<close>

text \<open>
  The environment of the process: the content of each file that \<^verbatim>\<open>fopen(name, "rb")\<close>
  opens, whether \<^verbatim>\<open>fopen(name, "wb")\<close> succeeds, the files written so far and the text
  on the error stream.
\<close>

record world =
  readable :: "string \<Rightarrow> u8 list option"
  writable :: "string \<Rightarrow> bool"
  written :: "string \<Rightarrow> u8 list option"
  stderr :: string

text \<open>
  A step of the process returns a value, calls \<^verbatim>\<open>exit\<close> with a status, or has undefined
  behaviour.
\<close>

datatype 'a proc = Return 'a world | Exit int world | Undefined error

definition bind_proc :: "'a proc \<Rightarrow> ('a \<Rightarrow> world \<Rightarrow> 'b proc) \<Rightarrow> 'b proc" where
  "bind_proc m f = (case m of Return a s \<Rightarrow> f a s | Exit c s \<Rightarrow> Exit c s
                    | Undefined e \<Rightarrow> Undefined e)"

definition lift_err :: "error + 'a \<Rightarrow> world \<Rightarrow> 'a proc" where
  "lift_err m s = (case m of Inl e \<Rightarrow> Undefined e | Inr a \<Rightarrow> Return a s)"

text \<open>Samples are stored in the byte order of the platform, taken as little-endian.\<close>

fun decode_u16 :: "u8 list \<Rightarrow> u16 list" where
  "decode_u16 (lo # hi # bytes) = word_of_nat (unat lo + 256 * unat hi) # decode_u16 bytes"
| "decode_u16 bytes = []"

text \<open>
  \<open>heap\<close> is the indeterminate content of the \<open>RG10_SIZE w h\<close> bytes that \<^verbatim>\<open>malloc\<close>
  returns; \<^verbatim>\<open>fread\<close> overwrites as many bytes as the file has, at most the whole buffer,
  and its result is not looked at.
\<close>

definition read_file :: "nat \<Rightarrow> nat \<Rightarrow> u8 list \<Rightarrow> string \<Rightarrow> world \<Rightarrow> u16 list proc" where
  "read_file w h heap name s =
     (case readable s name of
        None \<Rightarrow>
          Exit (- 1) (s\<lparr>stderr := stderr s @ ''Unable to open file '' @ name @
                                   '' for reading.'' @ [CHR 0x0A]\<rparr>)
      | Some bytes \<Rightarrow>
          Return (decode_u16 (take (RG10_SIZE w h) bytes @ drop (length bytes) heap)) s)"

definition tga_header :: "nat \<Rightarrow> nat \<Rightarrow> u8 list" where
  "tga_header w h = (replicate 18 0)
     [2 := 2,
      12 := word_of_nat (255 AND w),
      13 := word_of_nat (255 AND drop_bit 8 w),
      14 := word_of_nat (255 AND h),
      15 := word_of_nat (255 AND drop_bit 8 h),
      16 := 24,
      17 := 32]"

definition write_tga :: "nat \<Rightarrow> nat \<Rightarrow> string \<Rightarrow> u8 list \<Rightarrow> world \<Rightarrow> unit proc" where
  "write_tga w h name buff s =
     (if \<not> writable s name then
        Exit (- 1) (s\<lparr>stderr := stderr s @ ''Unable to open file '' @ name @
                                 '' for writing.'' @ [CHR 0x0A]\<rparr>)
      else if length buff < RGB_SIZE w h then Undefined OutOfBounds
      else Return () (s\<lparr>written := (written s)
                          (name \<mapsto> tga_header w h @ take (RGB_SIZE w h) buff)\<rparr>))"

text \<open>
  \<^verbatim>\<open>main\<close> with \<open>argv[1] = input\<close> and \<open>argv[2] = output\<close>; the value returned is the exit
  status.
\<close>

definition main :: "nat \<Rightarrow> nat \<Rightarrow> u8 list \<Rightarrow> string \<Rightarrow> string \<Rightarrow> world \<Rightarrow> int proc" where
  "main w h heap input output s =
     bind_proc (read_file w h heap input s) (\<lambda>buffer s.
     bind_proc (lift_err (normalize_frame w h buffer) s) (\<lambda>buffer s.
     bind_proc (lift_err (debayer w h buffer) s) (\<lambda>img s.
     bind_proc (write_tga w h output img s) (\<lambda>_ s.
       Return 0 s))))"

text \<open>Reading the geometry back from a TGA header.\<close>

definition tga_width :: "u8 list \<Rightarrow> nat" where
  "tga_width file = unat (file ! 12) + 256 * unat (file ! 13)"

definition tga_height :: "u8 list \<Rightarrow> nat" where
  "tga_height file = unat (file ! 14) + 256 * unat (file ! 15)"

text \<open>
  The rescaling as the specification words it, in exact arithmetic: the sample is
  replaced with round((v - min) * 1023 / (max - min)), to the nearest integer.
\<close>

definition spec_normalize :: "int \<Rightarrow> int \<Rightarrow> int \<Rightarrow> int" where
  "spec_normalize mn mx v = round_away (of_int (v - mn) * 1023 / of_int (mx - mn))"

text \<open>The rescaling to 8 bits as the specification words it: truncate(v * 255 / 1023).\<close>

definition spec_scale :: "int \<Rightarrow> int" where
  "spec_scale v = \<lfloor>rat_of_int v * 255 / 1023\<rfloor>"

text \<open>
  The sample that a normalisation statement stores for \<open>v\<close> in a frame with the extrema
  \<open>mn\<close> and \<open>mx\<close>, where the statement is defined.
\<close>

definition normalized :: "u16 \<Rightarrow> u16 \<Rightarrow> u16 \<Rightarrow> u16" where
  "normalized mn mx v =
     (case normalize_sample mn (frame_mult mn mx) v of Inr r \<Rightarrow> r | Inl e \<Rightarrow> v)"

section \<open>Auxiliary notions for the loops\<close>

text \<open>
  The sample positions that the nested loops over \<open>RG10_LOCATION\<close> have visited when
  iteration \<open>(y, x)\<close> starts: the rows before \<open>y\<close>, and of row \<open>y\<close> the first \<open>2 * x\<close>
  positions of its red and of its blue half.
\<close>

definition scanned :: "nat \<Rightarrow> nat \<Rightarrow> nat \<Rightarrow> nat set" where
  "scanned w y x = {i. i < 4 * w * y \<or> (4 * w * y \<le> i \<and> i < 4 * w * y + 2 * x)
                       \<or> (4 * w * y + 2 * w \<le> i \<and> i < 4 * w * y + 2 * w + 2 * x)}"

text \<open>
  A running pair \<open>(min, max)\<close> of the scan that has seen the positions \<open>S\<close>, started
  from \<open>(65535, 0)\<close>.
\<close>

definition tracks :: "u16 list \<Rightarrow> nat set \<Rightarrow> u16 \<times> u16 \<Rightarrow> bool" where
  "tracks buffer S s = (case s of (mn, mx) \<Rightarrow>
     (\<forall>i\<in>S. mn \<le> buffer ! i \<and> buffer ! i \<le> mx)
     \<and> (mx = 0 \<or> (\<exists>i\<in>S. buffer ! i = mx))
     \<and> (mn = 65535 \<or> (\<exists>i\<in>S. buffer ! i = mn)))"

text \<open>A buffer in which the positions \<open>S\<close> hold \<open>g\<close> of their original sample, the others the original.\<close>

definition partly :: "('a \<Rightarrow> 'a) \<Rightarrow> 'a list \<Rightarrow> nat set \<Rightarrow> 'a list \<Rightarrow> bool" where
  "partly g buffer S b \<longleftrightarrow>
     length b = length buffer
     \<and> (\<forall>i<length buffer. b ! i = (if i \<in> S then g (buffer ! i) else buffer ! i))"

text \<open>The values that \<^verbatim>\<open>debayer\<close> assigns to the R, B and G bytes of the pixel \<open>(x, y)\<close>.\<close>

definition pixel_R :: "nat \<Rightarrow> u16 list \<Rightarrow> nat \<Rightarrow> nat \<Rightarrow> error + u8" where
  "pixel_R w buffer x y = to_u8 (NORM (uint (buffer ! RG10_LOCATION w x y RG10_R)))"

definition pixel_B :: "nat \<Rightarrow> u16 list \<Rightarrow> nat \<Rightarrow> nat \<Rightarrow> error + u8" where
  "pixel_B w buffer x y = to_u8 (NORM (uint (buffer ! RG10_LOCATION w x y (RG10_B w))))"

definition pixel_G :: "nat \<Rightarrow> u16 list \<Rightarrow> nat \<Rightarrow> nat \<Rightarrow> error + u8" where
  "pixel_G w buffer x y =
     to_u8 (NORM ((uint (buffer ! RG10_LOCATION w x y (RG10_Gb w))
                   + uint (buffer ! RG10_LOCATION w x y RG10_Gr)) div 2))"

text \<open>An image whose first \<open>n\<close> pixels, in row-major order, hold those values.\<close>

definition painted :: "nat \<Rightarrow> u16 list \<Rightarrow> nat \<Rightarrow> u8 list \<Rightarrow> bool" where
  "painted w buffer n img \<longleftrightarrow>
     (\<forall>x y. x < w \<and> y * w + x < n \<longrightarrow>
        pixel_R w buffer x y = Inr (img ! RGB_LOCATION w x y RGB_R)
        \<and> pixel_B w buffer x y = Inr (img ! RGB_LOCATION w x y RGB_B)
        \<and> pixel_G w buffer x y = Inr (img ! RGB_LOCATION w x y RGB_G))"

text \<open>The four sample offsets of a block.\<close>

definition colors :: "nat \<Rightarrow> nat set" where
  "colors w = {RG10_R, RG10_Gr, RG10_Gb w, RG10_B w}"


section \<open>Properties\<close>

subsection \<open>Rounding to binary32\<close>

lemma pow2_powi: "pow2 k = power_int 2 k"
  by (simp add: pow2_def power_int_def inverse_eq_divide power_one_over)

lemma pow2_pos: "0 < pow2 k"
  by (simp add: pow2_powi)

lemma pow2_add: "pow2 (a + b) = pow2 a * pow2 b"
  by (simp add: pow2_powi power_int_add)

lemma pow2_mono: "a \<le> b \<Longrightarrow> pow2 a \<le> pow2 b"
  by (simp add: pow2_powi power_int_increasing)

lemma pow2_strict_mono: "a < b \<Longrightarrow> pow2 a < pow2 b"
  by (simp add: pow2_powi power_int_strict_increasing)

lemma pow2_less_cancel: "pow2 a < pow2 b \<Longrightarrow> a < b"
  using pow2_mono [of b a] by (cases "a < b") auto

lemma pow2_of_nat: "pow2 (int n) = 2 ^ n"
  by (simp add: pow2_def)

lemma pow2_1: "pow2 1 = 2"
  by (simp add: pow2_def)

lemma pow2_succ: "pow2 (k + 1) = 2 * pow2 k"
  by (simp add: pow2_add pow2_1)

lemma pow2_pred: "pow2 (k - 1) = pow2 k / 2"
  using pow2_succ [of "k - 1"] by simp

lemma of_int_bitlen_bounds:
  assumes "0 < p"
  shows "pow2 (bitlen p - 1) \<le> of_int p" and "of_int p < pow2 (bitlen p)"
proof -
  from assms have b: "1 \<le> bitlen p"
    using bitlen_eq_zero_iff [of p] bitlen_nonneg [of p] by linarith
  from bitlen_bounds [OF assms]
  have lo: "2 ^ nat (bitlen p - 1) \<le> p" and hi: "p < 2 ^ nat (bitlen p)" by simp_all
  have "(of_int (2 ^ nat (bitlen p - 1)) :: rat) \<le> of_int p"
    using lo by (simp only: of_int_le_iff)
  then show "pow2 (bitlen p - 1) \<le> of_int p"
    using b by (simp add: pow2_def)
  have "(of_int p :: rat) < of_int (2 ^ nat (bitlen p))"
    using hi by (simp only: of_int_less_iff)
  then show "of_int p < pow2 (bitlen p)"
    using b by (simp add: pow2_def)
qed

lemma ilog2_bounds:
  assumes "0 < x"
  shows "pow2 (ilog2 x) \<le> x" and "x < pow2 (ilog2 x + 1)"
proof -
  obtain p q where pq: "quotient_of x = (p, q)" by (cases "quotient_of x")
  then have q: "0 < q" by (rule quotient_of_denom_pos)
  from pq have x: "x = of_int p / of_int q" by (rule quotient_of_div)
  with assms q have p: "0 < p" by (simp add: zero_less_divide_iff)
  define k where "k = bitlen p - bitlen q"
  have qr: "(0::rat) < of_int q" using q by simp
  have "pow2 (k - 1) * of_int q < pow2 (k - 1) * pow2 (bitlen q)"
    using of_int_bitlen_bounds(2) [OF q] pow2_pos [of "k - 1"] by simp
  also have "\<dots> = pow2 (bitlen p - 1)"
    by (simp add: pow2_add [symmetric] k_def)
  also have "\<dots> \<le> of_int p" by (rule of_int_bitlen_bounds(1) [OF p])
  finally have lo: "pow2 (k - 1) < x"
    using qr by (simp add: x pos_less_divide_eq)
  have "of_int p < pow2 (bitlen p)" by (rule of_int_bitlen_bounds(2) [OF p])
  also have "\<dots> = pow2 (k + 1) * pow2 (bitlen q - 1)"
    by (simp add: pow2_add [symmetric] k_def)
  also have "\<dots> \<le> pow2 (k + 1) * of_int q"
    using of_int_bitlen_bounds(1) [OF q] pow2_pos [of "k + 1"] by simp
  finally have hi: "x < pow2 (k + 1)"
    using qr by (simp add: x pos_divide_less_eq)
  have e: "ilog2 x = (if pow2 k \<le> x then k else k - 1)"
    by (simp add: ilog2_def pq k_def Let_def)
  show "pow2 (ilog2 x) \<le> x"
    using lo by (simp add: e)
  show "x < pow2 (ilog2 x + 1)"
    using hi by (simp add: e)
qed

lemma ilog2_unique:
  assumes "0 < x" "pow2 e \<le> x" "x < pow2 (e + 1)"
  shows "ilog2 x = e"
proof -
  have "pow2 e < pow2 (ilog2 x + 1)"
    using assms(2) ilog2_bounds(2) [OF assms(1)] by simp
  then have a: "e < ilog2 x + 1" by (rule pow2_less_cancel)
  have "pow2 (ilog2 x) < pow2 (e + 1)"
    using assms(3) ilog2_bounds(1) [OF assms(1)] by simp
  then have "ilog2 x < e + 1" by (rule pow2_less_cancel)
  with a show ?thesis by simp
qed

lemma ilog2_less: "0 < x \<Longrightarrow> x < pow2 n \<Longrightarrow> ilog2 x < n"
  using ilog2_bounds(1) [of x] pow2_less_cancel [of "ilog2 x" n] by simp

lemma ilog2_ge: "0 < x \<Longrightarrow> pow2 n \<le> x \<Longrightarrow> n \<le> ilog2 x"
  using ilog2_bounds(2) [of x] pow2_less_cancel [of n "ilog2 x + 1"] by simp

lemma round_even_floor: "\<lfloor>s\<rfloor> \<le> round_even s" "round_even s \<le> \<lfloor>s\<rfloor> + 1"
  by (simp_all add: round_even_def Let_def)

lemma round_even_near: "\<bar>of_int (round_even s) - s\<bar> \<le> 1 / 2"
proof -
  have "of_int \<lfloor>s\<rfloor> \<le> s" "s < of_int \<lfloor>s\<rfloor> + 1" by linarith+
  then show ?thesis
    by (auto simp add: round_even_def Let_def abs_le_iff)
qed

lemma round_even_of_int: "round_even (of_int n) = n"
  by (simp add: round_even_def)


lemma mult_cancel_unit:
  fixes a q m :: rat
  assumes "q * m = 1"
  shows "a * m * q = a"
proof -
  have "a * m * q = a * (q * m)" by (simp only: mult_ac)
  with assms show ?thesis by simp
qed

lemma round_f32_normal:
  assumes lo: "pow2 (- 126) \<le> x" and hi: "x < pow2 127"
  shows "round_f32 x =
    Finite (of_int (round_even (x / pow2 (ilog2 x - 23))) * pow2 (ilog2 x - 23))"
proof -
  have x: "0 < x" using lo pow2_pos [of "- 126"] by linarith
  define e where "e = ilog2 x"
  define q where "q = pow2 (e - 23)"
  define r where "r = rat_of_int (round_even (x / q)) * q"
  have e1: "- 126 \<le> e" unfolding e_def by (rule ilog2_ge [OF x lo])
  have e2: "e < 127" unfolding e_def by (rule ilog2_less [OF x hi])
  have q: "0 < q" by (simp add: q_def pow2_pos)
  have "rat_of_int (round_even (x / q)) \<le> of_int (\<lfloor>x / q\<rfloor> + 1)"
    using round_even_floor(2) [of "x / q"] by (simp only: of_int_le_iff)
  also have "\<dots> \<le> x / q + 1" by simp
  finally have "r \<le> (x / q + 1) * q"
    unfolding r_def using q by (simp only: mult_le_cancel_right_pos)
  also have "\<dots> = x + q" using q by (simp add: field_simps)
  also have "\<dots> < pow2 127 + pow2 127"
  proof -
    have "q \<le> pow2 127" unfolding q_def using e2 by (intro pow2_mono) simp
    with hi show ?thesis by linarith
  qed
  also have "\<dots> = pow2 128" using pow2_succ [of 127] by simp
  finally have r: "\<not> pow2 128 \<le> r" by simp
  have m: "max (ilog2 x) (- 126) = ilog2 x" using e1 by (simp add: e_def)
  show ?thesis
    using x r by (simp add: round_f32_def Let_def m r_def q_def e_def)
qed

lemma round_f32_error:
  assumes lo: "pow2 (- 126) \<le> x" and hi: "x < pow2 127"
  obtains r where "round_f32 x = Finite r" and "\<bar>r - x\<bar> \<le> pow2 (ilog2 x - 24)"
proof -
  define q where "q = pow2 (ilog2 x - 23)"
  define r where "r = rat_of_int (round_even (x / q)) * q"
  have q: "0 < q" by (simp add: q_def pow2_pos)
  have "r - x = (rat_of_int (round_even (x / q)) - x / q) * q"
    using q by (simp add: r_def field_simps)
  then have "\<bar>r - x\<bar> = \<bar>rat_of_int (round_even (x / q)) - x / q\<bar> * q"
    using q by (simp add: abs_mult)
  also have "\<dots> \<le> (1 / 2) * q"
    using round_even_near [of "x / q"] q by (simp only: mult_le_cancel_right_pos)
  also have "\<dots> = pow2 (ilog2 x - 24)"
    using pow2_pred [of "ilog2 x - 23"] by (simp add: q_def)
  finally have "\<bar>r - x\<bar> \<le> pow2 (ilog2 x - 24)" .
  moreover have "round_f32 x = Finite r"
    using round_f32_normal [OF lo hi] by (simp add: r_def q_def)
  ultimately show thesis using that by blast
qed

lemma round_f32_floor:
  assumes lo: "pow2 (- 126) \<le> x" and hi: "x < pow2 24"
  obtains r where "round_f32 x = Finite r" and "of_int \<lfloor>x\<rfloor> \<le> r" and "r \<le> of_int \<lfloor>x\<rfloor> + 1"
proof -
  have x: "0 < x" using lo pow2_pos [of "- 126"] by linarith
  have hi': "x < pow2 127" using hi pow2_mono [of 24 127] by simp
  define e where "e = ilog2 x"
  define q where "q = pow2 (e - 23)"
  define m where "m = (2::int) ^ nat (23 - e)"
  define r where "r = rat_of_int (round_even (x / q)) * q"
  have e: "e < 24" unfolding e_def by (rule ilog2_less [OF x hi])
  have q: "0 < q" by (simp add: q_def pow2_pos)
  have "q * pow2 (23 - e) = 1"
    by (simp add: q_def pow2_add [symmetric] pow2_def)
  moreover have "pow2 (23 - e) = of_int m" using e by (simp add: pow2_def m_def)
  ultimately have qm: "q * of_int m = 1" by simp
  then have xq: "x / q = x * of_int m" using q by (simp add: field_simps)
  have m: "0 < m" by (simp add: m_def)
  have "rat_of_int (\<lfloor>x\<rfloor> * m) \<le> x * of_int m"
    using m by simp
  then have "\<lfloor>x\<rfloor> * m \<le> \<lfloor>x * of_int m\<rfloor>" by (simp only: le_floor_iff)
  also have "\<dots> \<le> round_even (x * of_int m)" by (rule round_even_floor(1))
  finally have "rat_of_int (\<lfloor>x\<rfloor> * m) * q \<le> r"
    unfolding r_def xq using q by (simp only: mult_le_cancel_right_pos of_int_le_iff)
  then have A: "of_int \<lfloor>x\<rfloor> \<le> r"
    by (simp only: of_int_mult mult_cancel_unit [OF qm])
  have "x < rat_of_int \<lfloor>x\<rfloor> + 1" by linarith
  then have "x * of_int m < rat_of_int ((\<lfloor>x\<rfloor> + 1) * m)"
    using m by simp
  then have "\<lfloor>x * of_int m\<rfloor> < (\<lfloor>x\<rfloor> + 1) * m" by (simp only: floor_less_iff)
  then have "round_even (x * of_int m) \<le> (\<lfloor>x\<rfloor> + 1) * m"
    using round_even_floor(2) [of "x * of_int m"] by linarith
  then have "r \<le> rat_of_int ((\<lfloor>x\<rfloor> + 1) * m) * q"
    unfolding r_def xq using q by (simp only: mult_le_cancel_right_pos of_int_le_iff)
  then have B: "r \<le> of_int \<lfloor>x\<rfloor> + 1"
    by (simp only: of_int_mult mult_cancel_unit [OF qm] of_int_add of_int_1)
  have "round_f32 x = Finite r"
    using round_f32_normal [OF lo hi'] by (simp add: r_def q_def e_def)
  with A B show thesis using that by blast
qed

lemma round_f32_of_int:
  assumes "0 \<le> n" "n < 2 ^ 24"
  shows "round_f32 (of_int n) = Finite (of_int n)"
proof (cases "n = 0")
  case True
  then show ?thesis by (simp add: round_f32_def)
next
  case False
  define x where "x = rat_of_int n"
  from False assms have n: "1 \<le> n" by simp
  then have x1: "1 \<le> x" by (simp add: x_def)
  have x: "0 < x" using x1 by simp
  have lo: "pow2 (- 126) \<le> x" using x1 pow2_mono [of "- 126" 0] by (simp add: pow2_def)
  have "x < 2 ^ 24" using assms(2) unfolding x_def by (metis of_int_less_iff of_int_numeral of_int_power)
  then have hi: "x < pow2 24" by (simp add: pow2_def)
  have hi': "x < pow2 127" using hi pow2_mono [of 24 127] by simp
  define e where "e = ilog2 x"
  define q where "q = pow2 (e - 23)"
  define m where "m = (2::int) ^ nat (23 - e)"
  have e: "e < 24" unfolding e_def by (rule ilog2_less [OF x hi])
  have "q * pow2 (23 - e) = 1"
    by (simp add: q_def pow2_add [symmetric] pow2_def)
  moreover have "pow2 (23 - e) = of_int m" using e by (simp add: pow2_def m_def)
  ultimately have qm: "q * of_int m = 1" by simp
  have q: "0 < q" by (simp add: q_def pow2_pos)
  from qm have xq: "x / q = of_int (n * m)" using q by (simp add: field_simps x_def)
  have "round_f32 x = Finite (of_int (round_even (x / q)) * q)"
    using round_f32_normal [OF lo hi'] by (simp add: q_def e_def)
  also have "\<dots> = Finite (of_int (n * m) * q)"
    by (simp only: xq round_even_of_int)
  also have "of_int (n * m) * q = x"
    by (simp only: of_int_mult mult_cancel_unit [OF qm] x_def)
  finally show ?thesis by (simp add: x_def)
qed

subsection \<open>The error monad and the loop\<close>

lemma bind_err_Inr [simp]: "bind_err (Inr a) f = f a"
  by (simp add: bind_err_def)

lemma bind_err_Inl [simp]: "bind_err (Inl e) f = Inl e"
  by (simp add: bind_err_def)

lemma bind_err_eq_Inr:
  "bind_err m f = Inr b \<longleftrightarrow> (\<exists>a. m = Inr a \<and> f a = Inr b)"
  by (cases m) simp_all

lemma bind_err_eq_Inl:
  "bind_err m f = Inl e \<longleftrightarrow> m = Inl e \<or> (\<exists>a. m = Inr a \<and> f a = Inl e)"
  by (cases m) simp_all

lemma for_loop_total:
  assumes init: "I 0 s"
    and step: "\<And>i a. i < n \<Longrightarrow> I i a \<Longrightarrow> \<exists>b. body i a = Inr b \<and> I (Suc i) b"
  shows "\<exists>t. for_loop n body s = Inr t \<and> I n t"
proof -
  have "k \<le> n \<Longrightarrow> \<exists>t. for_loop k body s = Inr t \<and> I k t" for k
  proof (induction k)
    case 0
    with init show ?case by simp
  next
    case (Suc k)
    then obtain a where a: "for_loop k body s = Inr a" "I k a" by auto
    from Suc.prems have "k < n" by simp
    from step [OF this a(2)] a(1) show ?case by simp
  qed
  then show ?thesis by simp
qed

lemma for_loop_partial:
  assumes run: "for_loop n body s = Inr t"
    and init: "I 0 s"
    and step: "\<And>i a b. i < n \<Longrightarrow> I i a \<Longrightarrow> body i a = Inr b \<Longrightarrow> I (Suc i) b"
  shows "I n t"
proof -
  have "k \<le> n \<Longrightarrow> for_loop k body s = Inr t' \<Longrightarrow> I k t'" for k t'
  proof (induction k arbitrary: t')
    case 0
    with init show ?case by simp
  next
    case (Suc k)
    from Suc.prems(2) obtain a where a: "for_loop k body s = Inr a" "body k a = Inr t'"
      by (auto simp add: bind_err_eq_Inr)
    from Suc.prems(1) have k: "k < n" "k \<le> n" by simp_all
    from Suc.IH [OF k(2) a(1)] have "I k a" .
    from step [OF k(1) this a(2)] show ?case .
  qed
  with run show ?thesis by simp
qed

lemma for_loop_error:
  assumes run: "for_loop n body s = Inl e"
    and init: "I 0 s"
    and step: "\<And>i a b. i < n \<Longrightarrow> I i a \<Longrightarrow> body i a = Inr b \<Longrightarrow> I (Suc i) b"
  shows "\<exists>i a. i < n \<and> I i a \<and> body i a = Inl e"
proof -
  have "k \<le> n \<Longrightarrow> for_loop k body s = Inl e \<Longrightarrow> \<exists>i a. i < n \<and> I i a \<and> body i a = Inl e" for k
  proof (induction k)
    case 0
    then show ?case by simp
  next
    case (Suc k)
    from Suc.prems(1) have k: "k < n" "k \<le> n" by simp_all
    from Suc.prems(2) consider "for_loop k body s = Inl e"
      | a where "for_loop k body s = Inr a" "body k a = Inl e"
      by (auto simp add: bind_err_eq_Inl)
    then show ?case
    proof cases
      case 1
      with Suc.IH k show ?thesis by simp
    next
      case 2
      have "I k a"
        by (rule for_loop_partial [where I = I, OF 2(1) init]) (use k in \<open>auto intro: step\<close>)
      with 2(2) k(1) show ?thesis by blast
    qed
  qed
  from this [of n] run show ?thesis by simp
qed

lemma for_loop_first_error:
  assumes "body 0 s = Inl e" "0 < n"
  shows "for_loop n body s = Inl e"
  using assms(2)
proof (induction n)
  case 0
  then show ?case by simp
next
  case (Suc n)
  then show ?case using assms(1) by (cases "n = 0") simp_all
qed

subsection \<open>Index arithmetic\<close>

lemma rows_le: "y < h \<Longrightarrow> w * y + w \<le> w * h" for w y h :: nat
  using mult_le_mono2 [of "Suc y" h w] by simp

lemma RG10_LOCATION_simps:
  "RG10_LOCATION w x y RG10_R = 4 * w * y + 2 * x"
  "RG10_LOCATION w x y RG10_Gr = 4 * w * y + 2 * x + 1"
  "RG10_LOCATION w x y (RG10_Gb w) = 4 * w * y + 2 * w + 2 * x"
  "RG10_LOCATION w x y (RG10_B w) = 4 * w * y + 2 * w + 2 * x + 1"
  by (simp_all add: RG10_LOCATION_def RG10_R_def RG10_Gr_def RG10_Gb_def RG10_B_def
      RG10_COLORS_def RG10_COLOR_SIZE_def)

lemma RGB_LOCATION_simps:
  "RGB_LOCATION w x y RGB_B = 3 * (y * w + x)"
  "RGB_LOCATION w x y RGB_G = 3 * (y * w + x) + 1"
  "RGB_LOCATION w x y RGB_R = 3 * (y * w + x) + 2"
  by (simp_all add: RGB_LOCATION_def RGB_R_def RGB_G_def RGB_B_def RGB_COLORS_def)

lemma RG10_in_bounds:
  fixes w h x y :: nat
  assumes "x < w" "y < h"
  shows "4 * w * y + 2 * w + 2 * x + 1 < 4 * w * h"
  using rows_le [OF assms(2), of w] assms(1) by simp

lemma RGB_in_bounds:
  fixes w h x y :: nat
  assumes "x < w" "y < h"
  shows "3 * (y * w + x) + 2 < 3 * w * h"
  using rows_le [OF assms(2), of w] assms(1) by (simp add: mult.commute)

lemma scanned_0: "scanned w 0 0 = {}"
  by (simp add: scanned_def)

lemma scanned_row: "scanned w y w = scanned w (Suc y) 0"
  by (auto simp add: scanned_def)

lemma scanned_all: "scanned w h 0 = {i. i < 4 * w * h}"
  by (auto simp add: scanned_def)

lemma scanned_Suc:
  "scanned w y (Suc x) =
     insert (4 * w * y + 2 * w + 2 * x + 1) (insert (4 * w * y + 2 * x)
       (insert (4 * w * y + 2 * x + 1) (insert (4 * w * y + 2 * w + 2 * x) (scanned w y x))))"
  by (auto simp add: scanned_def)

lemma not_scanned:
  assumes "x < w"
  shows "4 * w * y + 2 * w + 2 * x \<notin> scanned w y x"
    and "4 * w * y + 2 * x + 1 \<notin> scanned w y x"
    and "4 * w * y + 2 * x \<notin> scanned w y x"
    and "4 * w * y + 2 * w + 2 * x + 1 \<notin> scanned w y x"
  using assms by (simp_all add: scanned_def)

subsection \<open>The scan for the extrema\<close>

lemma if_less_max: "(if a < b then b else a) = max a b" for a b :: "'a::linorder"
  by (auto simp add: max_def)

lemma if_greater_min: "(if a > b then b else a) = min a b" for a b :: "'a::linorder"
  by (auto simp add: min_def)

lemma min_max_px_eq:
  assumes "4 * w * y + 2 * w + 2 * x + 1 < length buffer"
  shows "min_max_px w buffer y x (mn, mx) =
    Inr (min (min (min (min mn (buffer ! (4 * w * y + 2 * w + 2 * x)))
                (buffer ! (4 * w * y + 2 * x + 1)))
                (buffer ! (4 * w * y + 2 * w + 2 * x + 1)))
                (buffer ! (4 * w * y + 2 * x)),
         max (max (max (max mx (buffer ! (4 * w * y + 2 * w + 2 * x)))
                (buffer ! (4 * w * y + 2 * x + 1)))
                (buffer ! (4 * w * y + 2 * w + 2 * x + 1)))
                (buffer ! (4 * w * y + 2 * x)))"
  using assms
  by (simp add: min_max_px_def load_def RG10_LOCATION_simps Let_def if_less_max if_greater_min)

lemma tracks_init: "tracks buffer {} (65535, 0)"
  by (simp add: tracks_def)

lemma tracks_insert:
  assumes "tracks buffer S (mn, mx)"
  shows "tracks buffer (insert j S) (min mn (buffer ! j), max mx (buffer ! j))"
  using assms unfolding tracks_def
  by (auto simp add: min_def max_def)

lemma scanned_Suc_scan:
  "scanned w y (Suc x) =
     insert (4 * w * y + 2 * x) (insert (4 * w * y + 2 * w + 2 * x + 1)
       (insert (4 * w * y + 2 * x + 1) (insert (4 * w * y + 2 * w + 2 * x) (scanned w y x))))"
  by (auto simp add: scanned_def)

lemma min_max_px_tracks:
  assumes len: "length buffer = 4 * w * h" and x: "x < w" and y: "y < h"
    and inv: "tracks buffer (scanned w y x) s"
  shows "\<exists>s'. min_max_px w buffer y x s = Inr s' \<and> tracks buffer (scanned w y (Suc x)) s'"
proof -
  obtain mn mx where s: "s = (mn, mx)" by (cases s)
  have b: "4 * w * y + 2 * w + 2 * x + 1 < length buffer"
    using RG10_in_bounds [OF x y] len by simp
  have "tracks buffer (scanned w y (Suc x))
     (min (min (min (min mn (buffer ! (4 * w * y + 2 * w + 2 * x)))
                (buffer ! (4 * w * y + 2 * x + 1)))
                (buffer ! (4 * w * y + 2 * w + 2 * x + 1)))
                (buffer ! (4 * w * y + 2 * x)),
      max (max (max (max mx (buffer ! (4 * w * y + 2 * w + 2 * x)))
                (buffer ! (4 * w * y + 2 * x + 1)))
                (buffer ! (4 * w * y + 2 * w + 2 * x + 1)))
                (buffer ! (4 * w * y + 2 * x)))"
    unfolding scanned_Suc_scan using inv [unfolded s] by (intro tracks_insert)
  then show ?thesis
    unfolding s min_max_px_eq [OF b] by blast
qed

lemma min_max_frame_tracks:
  assumes len: "length buffer = 4 * w * h"
  shows "\<exists>s. min_max_frame w h buffer = Inr s \<and> tracks buffer {i. i < length buffer} s"
proof -
  have "\<exists>s. for_loop h (\<lambda>y. for_loop w (\<lambda>x. min_max_px w buffer y x)) (65535, 0) = Inr s
          \<and> tracks buffer (scanned w h 0) s"
  proof (rule for_loop_total [where I = "\<lambda>y. tracks buffer (scanned w y 0)"])
    show "tracks buffer (scanned w 0 0) (65535, 0)"
      by (simp add: scanned_0 tracks_init)
  next
    fix y a
    assume y: "y < h" and a: "tracks buffer (scanned w y 0) a"
    have "\<exists>b. for_loop w (\<lambda>x. min_max_px w buffer y x) a = Inr b
            \<and> tracks buffer (scanned w y w) b"
    proof (rule for_loop_total [where I = "\<lambda>x. tracks buffer (scanned w y x)"])
      show "tracks buffer (scanned w y 0) a" by (rule a)
    next
      fix x s
      assume "x < w" "tracks buffer (scanned w y x) s"
      then show "\<exists>s'. min_max_px w buffer y x s = Inr s' \<and> tracks buffer (scanned w y (Suc x)) s'"
        by (rule min_max_px_tracks [OF len _ y])
    qed
    then show "\<exists>b. for_loop w (\<lambda>x. min_max_px w buffer y x) a = Inr b
            \<and> tracks buffer (scanned w (Suc y) 0) b"
      by (simp add: scanned_row)
  qed
  then show ?thesis by (simp add: min_max_frame_def scanned_all len)
qed

lemma tracks_all_Min_Max:
  assumes "tracks buffer {i. i < length buffer} (mn, mx)" and ne: "buffer \<noteq> []"
  shows "mn = Min (set buffer)" and "mx = Max (set buffer)"
proof -
  from assms(1) have bounds: "\<And>v. v \<in> set buffer \<Longrightarrow> mn \<le> v \<and> v \<le> mx"
    and mx: "mx = 0 \<or> mx \<in> set buffer" and mn: "mn = 65535 \<or> mn \<in> set buffer"
    unfolding tracks_def by (auto simp add: in_set_conv_nth)
  from ne obtain v where v: "v \<in> set buffer" by (cases buffer) auto
  have "mx \<in> set buffer"
  proof (cases "mx = 0")
    case True
    with bounds [OF v] have "v = 0" by simp
    with v True show ?thesis by simp
  next
    case False
    with mx show ?thesis by simp
  qed
  then show "mx = Max (set buffer)"
    using bounds by (intro Max_eqI [symmetric]) auto
  have "mn \<in> set buffer"
  proof (cases "mn = 65535")
    case True
    with bounds [OF v] have "65535 \<le> v" by simp
    then have "uint v = 65535"
      using uint_bounded [of v] by (simp add: word_le_def)
    then have "v = 65535" by (simp add: word_uint_eq_iff)
    with v True show ?thesis by simp
  next
    case False
    with mn show ?thesis by simp
  qed
  then show "mn = Min (set buffer)"
    using bounds by (intro Min_eqI [symmetric]) auto
qed

lemma min_max_frame_eq:
  assumes "length buffer = 4 * w * h" "buffer \<noteq> []"
  shows "min_max_frame w h buffer = Inr (Min (set buffer), Max (set buffer))"
proof -
  from min_max_frame_tracks [OF assms(1)] obtain mn mx
    where "min_max_frame w h buffer = Inr (mn, mx)"
      and "tracks buffer {i. i < length buffer} (mn, mx)" by auto
  with tracks_all_Min_Max [OF this(2) assms(2)] show ?thesis by simp
qed

subsection \<open>The rescaling loops\<close>

lemma partly_step:
  assumes "partly g buffer S b" "j \<notin> S" "j < length buffer"
    and "normalize_sample mn mult (buffer ! j) = Inr (g (buffer ! j))"
  shows "\<exists>b'. normalize_at j mn mult b = Inr b' \<and> partly g buffer (insert j S) b'"
  using assms
  by (auto simp add: partly_def normalize_at_def load_def store_def nth_list_update)

lemma scanned_Suc_norm:
  "scanned w y (Suc x) =
     insert (4 * w * y + 2 * w + 2 * x + 1) (insert (4 * w * y + 2 * x)
       (insert (4 * w * y + 2 * x + 1) (insert (4 * w * y + 2 * w + 2 * x) (scanned w y x))))"
  by (auto simp add: scanned_def)

lemma normalize_px_partly:
  assumes len: "length buffer = 4 * w * h" and x: "x < w" and y: "y < h"
    and g: "\<And>i. i < length buffer \<Longrightarrow> normalize_sample mn mult (buffer ! i) = Inr (g (buffer ! i))"
    and inv: "partly g buffer (scanned w y x) b"
  shows "\<exists>b'. normalize_px w mn mult y x b = Inr b' \<and> partly g buffer (scanned w y (Suc x)) b'"
proof -
  let ?Gb = "4 * w * y + 2 * w + 2 * x" and ?Gr = "4 * w * y + 2 * x + 1"
  let ?R = "4 * w * y + 2 * x" and ?B = "4 * w * y + 2 * w + 2 * x + 1"
  have bnd: "?Gb < length buffer" "?Gr < length buffer" "?R < length buffer" "?B < length buffer"
    using RG10_in_bounds [OF x y] len by simp_all
  note ns = not_scanned [OF x, of y]
  from partly_step [OF inv ns(1) bnd(1) g [OF bnd(1)]] obtain b1
    where b1: "normalize_at ?Gb mn mult b = Inr b1" "partly g buffer (insert ?Gb (scanned w y x)) b1"
    by blast
  have "?Gr \<notin> insert ?Gb (scanned w y x)" using ns(2) x by simp
  from partly_step [OF b1(2) this bnd(2) g [OF bnd(2)]] obtain b2
    where b2: "normalize_at ?Gr mn mult b1 = Inr b2"
      "partly g buffer (insert ?Gr (insert ?Gb (scanned w y x))) b2"
    by blast
  have "?R \<notin> insert ?Gr (insert ?Gb (scanned w y x))" using ns(3) x by simp
  from partly_step [OF b2(2) this bnd(3) g [OF bnd(3)]] obtain b3
    where b3: "normalize_at ?R mn mult b2 = Inr b3"
      "partly g buffer (insert ?R (insert ?Gr (insert ?Gb (scanned w y x)))) b3"
    by blast
  have "?B \<notin> insert ?R (insert ?Gr (insert ?Gb (scanned w y x)))" using ns(4) x by simp
  from partly_step [OF b3(2) this bnd(4) g [OF bnd(4)]] obtain b4
    where b4: "normalize_at ?B mn mult b3 = Inr b4"
      "partly g buffer (insert ?B (insert ?R (insert ?Gr (insert ?Gb (scanned w y x))))) b4"
    by blast
  have "normalize_px w mn mult y x b = Inr b4"
    by (simp only: normalize_px_def RG10_LOCATION_simps b1(1) b2(1) b3(1) b4(1) bind_err_Inr)
  with b4(2) show ?thesis by (simp only: scanned_Suc_norm) blast
qed

lemma normalize_loops:
  assumes len: "length buffer = 4 * w * h"
    and g: "\<And>i. i < length buffer \<Longrightarrow> normalize_sample mn mult (buffer ! i) = Inr (g (buffer ! i))"
  shows "for_loop h (\<lambda>y. for_loop w (\<lambda>x. normalize_px w mn mult y x)) buffer = Inr (map g buffer)"
proof -
  have "\<exists>b. for_loop h (\<lambda>y. for_loop w (\<lambda>x. normalize_px w mn mult y x)) buffer = Inr b
          \<and> partly g buffer (scanned w h 0) b"
  proof (rule for_loop_total [where I = "\<lambda>y. partly g buffer (scanned w y 0)"])
    show "partly g buffer (scanned w 0 0) buffer"
      by (simp add: scanned_0 partly_def)
  next
    fix y a
    assume y: "y < h" and a: "partly g buffer (scanned w y 0) a"
    have "\<exists>b. for_loop w (\<lambda>x. normalize_px w mn mult y x) a = Inr b
            \<and> partly g buffer (scanned w y w) b"
    proof (rule for_loop_total [where I = "\<lambda>x. partly g buffer (scanned w y x)"])
      show "partly g buffer (scanned w y 0) a" by (rule a)
    next
      fix x b
      assume x: "x < w" and b: "partly g buffer (scanned w y x) b"
      show "\<exists>b'. normalize_px w mn mult y x b = Inr b'
                  \<and> partly g buffer (scanned w y (Suc x)) b'"
        using len x y g b by (rule normalize_px_partly)
    qed
    then show "\<exists>b. for_loop w (\<lambda>x. normalize_px w mn mult y x) a = Inr b
            \<and> partly g buffer (scanned w (Suc y) 0) b"
      by (simp add: scanned_row)
  qed
  then obtain b where b: "for_loop h (\<lambda>y. for_loop w (\<lambda>x. normalize_px w mn mult y x)) buffer = Inr b"
    and p: "partly g buffer {i. i < length buffer} b"
    by (auto simp add: scanned_all len)
  from p have "b = map g buffer"
    by (intro nth_equalityI) (simp_all add: partly_def)
  with b show ?thesis by simp
qed

subsection \<open>Conversions and the multiplier\<close>

lemma f32_of_int_exact:
  assumes "0 \<le> n" "n < 2 ^ 24"
  shows "f32_of_int n = Finite (of_int n)"
  unfolding f32_of_int_def using assms by (rule round_f32_of_int)

lemma f32_of_uint: "f32_of_int (uint v) = Finite (of_int (uint v))" for v :: u16
proof (rule f32_of_int_exact)
  show "0 \<le> uint v" by simp
  show "uint v < 2 ^ 24" using uint_bounded [of v] by simp
qed

lemma round_f32_0: "round_f32 0 = Finite 0"
  by (simp add: round_f32_def)

lemma frame_mult_degenerate: "frame_mult v v = PInf"
  by (simp add: frame_mult_def f32_of_uint f32_of_int_exact round_f32_0 inf_of_sign_def)

lemma frame_mult_eq:
  assumes "mn < mx"
  shows "frame_mult mn mx = round_f32 (1023 / of_int (uint mx - uint mn))"
proof -
  from assms have d: "0 < uint mx - uint mn" by (simp add: word_less_def)
  have "uint mx < 65536" using uint_bounded [of mx] by simp
  moreover have "0 \<le> uint mn" by simp
  ultimately have "uint mx - uint mn < 16777216" by linarith
  then have "uint mx - uint mn < 2 ^ 24" by simp
  with d have "round_f32 (of_int (uint mx - uint mn)) = Finite (of_int (uint mx - uint mn))"
    by (intro round_f32_of_int) simp_all
  then have s: "f32_sub (Finite (of_int (uint mx))) (Finite (of_int (uint mn)))
      = Finite (of_int (uint mx - uint mn))"
    by (simp only: f32_sub.simps of_int_diff)
  from d have "uint mx - uint mn \<noteq> 0" by linarith
  then have nz: "rat_of_int (uint mx - uint mn) \<noteq> 0"
    by (simp only: of_int_eq_0_iff not_False_eq_True)
  have c: "f32_of_int 1023 = Finite 1023"
    using f32_of_int_exact [of 1023] by simp
  show ?thesis
    unfolding frame_mult_def f32_of_uint s c using nz by (simp only: f32_div.simps if_False)
qed

lemma round_away_near: "\<bar>of_int (round_away x) - x\<bar> \<le> 1 / 2"
proof (cases "0 \<le> x")
  case True
  then have k: "round_away x = \<lfloor>x + 1 / 2\<rfloor>" by (simp add: round_away_def)
  show ?thesis unfolding k by linarith
next
  case False
  then have k: "round_away x = - \<lfloor>- x + 1 / 2\<rfloor>" by (simp add: round_away_def)
  show ?thesis unfolding k of_int_minus by linarith
qed

lemma round_away_of_int: "round_away (of_int n) = n"
proof -
  have "\<lfloor>rat_of_int n + 1 / 2\<rfloor> = n" "\<lfloor>- rat_of_int n + 1 / 2\<rfloor> = - n"
    by (simp_all add: floor_unique)
  then show ?thesis by (simp add: round_away_def)
qed

lemma to_u16_of_int:
  assumes "round_away r = k" "0 \<le> k" "k < 65536"
  shows "to_u16 (c_round (Finite r)) = Inr (word_of_int k)"
  using assms by (simp add: to_u16_def trunc_def)

subsection \<open>Error of the two roundings of the rescaling\<close>

lemma pow2_numeral_simps:
  "pow2 10 = 1024" "pow2 (- 8) = 1 / 256" "pow2 (- 13) = 1 / 8192" "pow2 (- 15) = 1 / 32768"
  "pow2 (- 24) = 1 / 16777216" "pow2 8 = 256" "pow2 (- 17) = 1 / 131072" "pow2 (- 3) = 1 / 8"
  "pow2 24 = 16777216" "pow2 0 = 1"
  by (simp_all add: pow2_def)

lemma round_f32_rel_error:
  assumes lo: "pow2 (- 126) \<le> x" and hi: "x < pow2 127"
  obtains r where "round_f32 x = Finite r" and "\<bar>r - x\<bar> \<le> x * pow2 (- 24)"
proof -
  have x: "0 < x" using lo pow2_pos [of "- 126"] by linarith
  from round_f32_error [OF lo hi] obtain r
    where r: "round_f32 x = Finite r" "\<bar>r - x\<bar> \<le> pow2 (ilog2 x - 24)" by blast
  have "pow2 (ilog2 x - 24) = pow2 (ilog2 x) * pow2 (- 24)"
    using pow2_add [of "ilog2 x" "- 24"] by simp
  also have "\<dots> \<le> x * pow2 (- 24)"
    using ilog2_bounds(1) [OF x] pow2_pos [of "- 24"] by simp
  finally show thesis using r that by simp
qed

lemma round_f32_abs_error:
  assumes lo: "pow2 (- 126) \<le> x" and hi: "x < pow2 n" and n: "n \<le> 127"
  obtains r where "round_f32 x = Finite r" and "\<bar>r - x\<bar> \<le> pow2 (n - 25)"
proof -
  have x: "0 < x" using lo pow2_pos [of "- 126"] by linarith
  have hi': "x < pow2 127" using hi pow2_mono [OF n] by simp
  from round_f32_error [OF lo hi'] obtain r
    where r: "round_f32 x = Finite r" "\<bar>r - x\<bar> \<le> pow2 (ilog2 x - 24)" by blast
  have "ilog2 x < n" by (rule ilog2_less [OF x hi])
  then have "pow2 (ilog2 x - 24) \<le> pow2 (n - 25)" by (intro pow2_mono) simp
  with r that show thesis by simp
qed

lemma pow2_126_small: "pow2 (- 126) \<le> 1 / 256"
  using pow2_mono [of "- 126" "- 8"] by (simp add: pow2_numeral_simps)

lemma pow2_127_big: "1024 \<le> pow2 127"
  using pow2_mono [of 10 127] by (simp add: pow2_numeral_simps)

lemma abs_triangle_bound:
  fixes a b c :: rat
  assumes "\<bar>a - b\<bar> \<le> e1" "\<bar>b - c\<bar> \<le> e2" "e1 + e2 \<le> e"
  shows "\<bar>a - c\<bar> \<le> e"
  using assms by linarith

lemma rescale_error:
  fixes d u :: int
  assumes d: "1 \<le> d" "d \<le> 65535" and u: "0 \<le> u" "u \<le> d"
  obtains m r where "round_f32 (1023 / of_int d) = Finite m"
    and "round_f32 (of_int u * m) = Finite r"
    and "\<bar>r - of_int u * 1023 / of_int d\<bar> \<le> 1 / 8192"
proof -
  define t :: rat where "t = 1023 / of_int d"
  have dr: "1 \<le> rat_of_int d" "rat_of_int d \<le> 65535" using d by simp_all
  have ur: "0 \<le> rat_of_int u" "rat_of_int u \<le> rat_of_int d" using u by simp_all
  have t1: "1 / 128 \<le> t" using dr by (simp add: t_def field_simps)
  have t2: "t \<le> 1023" using dr by (simp add: t_def field_simps)
  have dt: "of_int d * t = 1023" using dr by (simp add: t_def)
  have "pow2 (- 126) \<le> t" using pow2_126_small t1 by linarith
  moreover have "t < pow2 127" using pow2_127_big t2 by linarith
  ultimately obtain m where m: "round_f32 t = Finite m" "\<bar>m - t\<bar> \<le> t * pow2 (- 24)"
    by (rule round_f32_rel_error)
  have mt: "\<bar>m - t\<bar> \<le> t / 16777216" using m(2) by (simp add: pow2_numeral_simps)
  have um: "\<bar>of_int u * m - of_int u * t\<bar> \<le> 1023 / 16777216"
  proof -
    have "\<bar>of_int u * m - of_int u * t\<bar> = of_int u * \<bar>m - t\<bar>"
      using ur(1) by (simp add: right_diff_distrib [symmetric] abs_mult)
    also have "\<dots> \<le> of_int d * (t / 16777216)"
      using ur mt by (intro mult_mono) simp_all
    also have "\<dots> = 1023 / 16777216" using dt by simp
    finally show ?thesis .
  qed
  show thesis
  proof (cases "u = 0")
    case True
    show thesis
      by (rule that [OF m(1) [unfolded t_def], of 0]) (simp_all add: True round_f32_0)
  next
    case False
    with u have "1 \<le> rat_of_int u" by simp
    moreover have "1 / 256 \<le> m" using mt t1 by linarith
    ultimately have "1 / 256 \<le> of_int u * m"
      using mult_mono [of 1 "of_int u" "1 / 256" m] by simp
    then have lo: "pow2 (- 126) \<le> of_int u * m" using pow2_126_small by linarith
    have "of_int u * m \<le> of_int u * t + 1023 / 16777216" using um by linarith
    also have "of_int u * t \<le> of_int d * t" using ur t1 by (intro mult_right_mono) simp_all
    finally have "of_int u * m < 1024" using dt by simp
    then have hi: "of_int u * m < pow2 10" by (simp add: pow2_numeral_simps)
    from round_f32_abs_error [OF lo hi] obtain r
      where r: "round_f32 (of_int u * m) = Finite r" "\<bar>r - of_int u * m\<bar> \<le> pow2 (10 - 25)"
      by auto
    have "pow2 (10 - 25) = 1 / 32768" by (simp add: pow2_numeral_simps)
    with r(2) have "\<bar>r - of_int u * m\<bar> \<le> 1 / 32768" by simp
    then have "\<bar>r - of_int u * t\<bar> \<le> 1 / 8192"
      using um by (rule abs_triangle_bound) simp
    then have "\<bar>r - of_int u * 1023 / of_int d\<bar> \<le> 1 / 8192" by (simp add: t_def)
    with m(1) r(1) show thesis by (intro that) (simp_all add: t_def)
  qed
qed

subsection \<open>One normalisation statement\<close>

lemma uint_word_of_int_u16:
  assumes "0 \<le> k" "k \<le> 1023"
  shows "uint (word_of_int k :: u16) = k"
  using assms by (simp add: uint_word_of_int take_bit_int_eq_self)

lemma int_of_rat_bounds:
  fixes k :: int
  assumes "- 1 < rat_of_int k" "rat_of_int k < 1024"
  shows "0 \<le> k" "k \<le> 1023"
proof -
  from assms(1) have "rat_of_int (- 1) < rat_of_int k" by simp
  then have "- 1 < k" by (simp only: of_int_less_iff)
  then show "0 \<le> k" by simp
  from assms(2) have "rat_of_int k < rat_of_int 1024" by simp
  then have "k < 1024" by (simp only: of_int_less_iff)
  then show "k \<le> 1023" by simp
qed

lemma int_close:
  fixes a b :: int
  assumes "\<bar>rat_of_int a - rat_of_int b\<bar> < 2"
  shows "\<bar>a - b\<bar> \<le> 1"
proof -
  have "rat_of_int \<bar>a - b\<bar> < rat_of_int 2" using assms by simp
  then have "\<bar>a - b\<bar> < 2" by (simp only: of_int_less_iff)
  then show ?thesis by simp
qed

lemma normalize_sample_bounds:
  assumes lt: "mn < mx" and v: "mn \<le> v" "v \<le> mx"
  shows "\<exists>k. normalize_sample mn (frame_mult mn mx) v = Inr (word_of_int k)
           \<and> 0 \<le> k \<and> k \<le> 1023
           \<and> \<bar>rat_of_int k - of_int (uint v - uint mn) * 1023 / of_int (uint mx - uint mn)\<bar>
               \<le> 1 / 2 + 1 / 8192
           \<and> (v = mn \<longrightarrow> k = 0) \<and> (v = mx \<longrightarrow> k = 1023)"
proof -
  define d where "d = uint mx - uint mn"
  define u where "u = uint v - uint mn"
  define e :: rat where "e = of_int u * 1023 / of_int d"
  have d: "1 \<le> d" using lt by (simp add: d_def word_less_def)
  have "uint mx < 65536" using uint_bounded [of mx] by simp
  moreover have "0 \<le> uint mn" by simp
  ultimately have d2: "d \<le> 65535" unfolding d_def by linarith
  have u: "0 \<le> u" "u \<le> d" using v by (simp_all add: u_def d_def word_le_def)
  from rescale_error [OF d d2 u] obtain m r
    where m: "round_f32 (1023 / of_int d) = Finite m"
      and r: "round_f32 (of_int u * m) = Finite r"
      and re: "\<bar>r - e\<bar> \<le> 1 / 8192"
    unfolding e_def by blast
  define k where "k = round_away r"
  have kr: "\<bar>rat_of_int k - r\<bar> \<le> 1 / 2" unfolding k_def by (rule round_away_near)
  have ke: "\<bar>rat_of_int k - e\<bar> \<le> 1 / 2 + 1 / 8192"
    using kr re by (rule abs_triangle_bound) simp
  have dr: "0 < rat_of_int d" using d by simp
  have "rat_of_int u \<le> rat_of_int d" using u(2) by simp
  then have "rat_of_int u * 1023 \<le> 1023 * rat_of_int d" by simp
  then have e2: "e \<le> 1023" unfolding e_def using dr by (simp add: pos_divide_le_eq)
  have e1: "0 \<le> e" unfolding e_def using u(1) dr by simp
  have k01: "0 \<le> k" "k \<le> 1023"
    by (rule int_of_rat_bounds; use ke e1 e2 in linarith)+
  have fu: "f32_of_int u = Finite (of_int u)"
    using u d2 by (intro f32_of_int_exact) simp_all
  have "normalize_sample mn (frame_mult mn mx) v = to_u16 (c_round (Finite r))"
    by (simp only: normalize_sample_def frame_mult_eq [OF lt] d_def [symmetric] u_def [symmetric]
        m fu f32_mul.simps r)
  also have "\<dots> = Inr (word_of_int k)"
    using k01 by (intro to_u16_of_int) (simp_all add: k_def)
  finally have ns: "normalize_sample mn (frame_mult mn mx) v = Inr (word_of_int k)" .
  have z: "k = 0" if "v = mn"
  proof -
    from that have "e = 0" by (simp add: e_def u_def)
    with ke have "\<bar>rat_of_int k - rat_of_int 0\<bar> < 2" by simp
    then have "\<bar>k - 0\<bar> \<le> 1" by (rule int_close)
    moreover from ke \<open>e = 0\<close> have "rat_of_int k \<noteq> 1" "rat_of_int k \<noteq> - 1" by auto
    then have "k \<noteq> 1" "k \<noteq> - 1" by auto
    ultimately show ?thesis by linarith
  qed
  have t: "k = 1023" if "v = mx"
  proof -
    from that have "u = d" by (simp add: u_def d_def)
    then have "e = 1023" using dr by (simp add: e_def)
    with ke have ke': "\<bar>rat_of_int k - rat_of_int 1023\<bar> \<le> 1 / 2 + 1 / 8192" by simp
    then have "\<bar>rat_of_int k - rat_of_int 1023\<bar> < 2" by linarith
    then have "\<bar>k - 1023\<bar> \<le> 1" by (rule int_close)
    moreover from ke' have "rat_of_int k \<noteq> 1024" "rat_of_int k \<noteq> 1022" by auto
    then have "k \<noteq> 1024" "k \<noteq> 1022" by auto
    ultimately show ?thesis by linarith
  qed
  from ns k01 ke z t show ?thesis unfolding e_def u_def d_def by blast
qed

lemma spec_normalize_close:
  assumes "\<bar>rat_of_int k - of_int (v - mn) * 1023 / of_int (mx - mn)\<bar> \<le> 1 / 2 + 1 / 8192"
  shows "\<bar>k - spec_normalize mn mx v\<bar> \<le> 1"
proof -
  define e :: rat where "e = of_int (v - mn) * 1023 / of_int (mx - mn)"
  have "\<bar>rat_of_int (spec_normalize mn mx v) - e\<bar> \<le> 1 / 2"
    unfolding spec_normalize_def e_def by (rule round_away_near)
  with assms [folded e_def] have "\<bar>rat_of_int k - rat_of_int (spec_normalize mn mx v)\<bar> < 2"
    by linarith
  then show ?thesis by (rule int_close)
qed

lemma normalized_props:
  assumes lt: "mn < mx" and v: "mn \<le> v" "v \<le> mx"
  shows "normalize_sample mn (frame_mult mn mx) v = Inr (normalized mn mx v)"
    and "uint (normalized mn mx v) \<le> 1023"
    and "\<bar>rat_of_int (uint (normalized mn mx v))
           - of_int (uint v - uint mn) * 1023 / of_int (uint mx - uint mn)\<bar> \<le> 1 / 2 + 1 / 8192"
    and "\<bar>uint (normalized mn mx v) - spec_normalize (uint mn) (uint mx) (uint v)\<bar> \<le> 1"
    and "v = mn \<Longrightarrow> normalized mn mx v = 0"
    and "v = mx \<Longrightarrow> normalized mn mx v = 1023"
proof -
  from normalize_sample_bounds [OF assms] obtain k
    where k: "normalize_sample mn (frame_mult mn mx) v = Inr (word_of_int k)"
      "0 \<le> k" "k \<le> 1023"
      "\<bar>rat_of_int k - of_int (uint v - uint mn) * 1023 / of_int (uint mx - uint mn)\<bar>
         \<le> 1 / 2 + 1 / 8192"
      "v = mn \<longrightarrow> k = 0" "v = mx \<longrightarrow> k = 1023"
    by blast
  have n: "normalized mn mx v = word_of_int k" by (simp add: normalized_def k(1))
  have un: "uint (normalized mn mx v) = k"
    unfolding n using k(2,3) by (rule uint_word_of_int_u16)
  show "normalize_sample mn (frame_mult mn mx) v = Inr (normalized mn mx v)"
    by (simp only: n k(1))
  show "uint (normalized mn mx v) \<le> 1023" using k(3) by (simp only: un)
  show "\<bar>rat_of_int (uint (normalized mn mx v))
           - of_int (uint v - uint mn) * 1023 / of_int (uint mx - uint mn)\<bar> \<le> 1 / 2 + 1 / 8192"
    using k(4) by (simp only: un)
  show "\<bar>uint (normalized mn mx v) - spec_normalize (uint mn) (uint mx) (uint v)\<bar> \<le> 1"
    unfolding un using k(4) by (rule spec_normalize_close)
  show "normalized mn mx v = 0" if "v = mn"
  proof -
    from k(5) that have "k = 0" by simp
    then show ?thesis unfolding n by simp
  qed
  show "normalized mn mx v = 1023" if "v = mx"
  proof -
    from k(6) that have "k = 1023" by simp
    then show ?thesis unfolding n by simp
  qed
qed

subsection \<open>normalize\_frame on a frame with distinct extrema\<close>

lemma normalize_frame_map:
  assumes len: "length buffer = 4 * w * h" and ne: "buffer \<noteq> []"
    and lt: "Min (set buffer) < Max (set buffer)"
  shows "normalize_frame w h buffer
    = Inr (map (normalized (Min (set buffer)) (Max (set buffer))) buffer)"
proof -
  let ?mn = "Min (set buffer)" and ?mx = "Max (set buffer)"
  have g: "normalize_sample ?mn (frame_mult ?mn ?mx) (buffer ! i)
             = Inr (normalized ?mn ?mx (buffer ! i))" if "i < length buffer" for i
  proof (rule normalized_props(1) [OF lt])
    from that have "buffer ! i \<in> set buffer" by simp
    then show "?mn \<le> buffer ! i" "buffer ! i \<le> ?mx" by simp_all
  qed
  show ?thesis
    by (simp add: normalize_frame_def min_max_frame_eq [OF len ne] normalize_loops [OF len g])
qed

subsection \<open>normalize\_frame on a uniform frame\<close>

lemma normalize_sample_degenerate: "normalize_sample v PInf v = Inl UndefinedConversion"
proof -
  have "f32_of_int (uint v - uint v) = Finite 0"
    using f32_of_int_exact [of 0] by simp
  then show ?thesis
    by (simp add: normalize_sample_def inf_of_sign_def to_u16_def)
qed

lemma normalize_frame_degenerate:
  assumes len: "length buffer = 4 * w * h" and ne: "buffer \<noteq> []"
    and eq: "Min (set buffer) = Max (set buffer)"
  shows "normalize_frame w h buffer = Inl UndefinedConversion"
proof -
  let ?m = "Min (set buffer)"
  from ne len have wh: "0 < w" "0 < h" by (cases "w = 0"; cases "h = 0"; simp)+
  have all: "v = ?m" if "v \<in> set buffer" for v
  proof -
    from that have "?m \<le> v" "v \<le> Max (set buffer)" by simp_all
    with eq show ?thesis by simp
  qed
  have "4 * w * 0 + 2 * w + 2 * 0 + 1 < 4 * w * h"
    using wh by (rule RG10_in_bounds)
  then have b: "2 * w < length buffer"
    unfolding len by linarith
  then have "buffer ! (2 * w) = ?m" by (intro all) simp
  then have "normalize_at (2 * w) ?m PInf buffer = Inl UndefinedConversion"
    using b by (simp add: normalize_at_def load_def normalize_sample_degenerate)
  then have "normalize_px w ?m PInf 0 0 buffer = Inl UndefinedConversion"
    by (simp add: normalize_px_def RG10_LOCATION_simps)
  then have "for_loop w (\<lambda>x. normalize_px w ?m PInf 0 x) buffer = Inl UndefinedConversion"
    using wh(1) by (rule for_loop_first_error)
  then have "for_loop h (\<lambda>y. for_loop w (\<lambda>x. normalize_px w ?m PInf y x)) buffer
      = Inl UndefinedConversion"
    using wh(2) by (rule for_loop_first_error)
  then show ?thesis
    by (simp add: normalize_frame_def min_max_frame_eq [OF len ne] eq [symmetric]
        frame_mult_degenerate)
qed

subsection \<open>The normalised frame\<close>

lemma normalized_range:
  assumes ne: "buffer \<noteq> []" and lt: "Min (set buffer) < Max (set buffer)"
  shows "0 \<in> set (map (normalized (Min (set buffer)) (Max (set buffer))) buffer)"
    and "1023 \<in> set (map (normalized (Min (set buffer)) (Max (set buffer))) buffer)"
    and "\<And>r. r \<in> set (map (normalized (Min (set buffer)) (Max (set buffer))) buffer)
           \<Longrightarrow> r \<le> 1023"
proof -
  let ?mn = "Min (set buffer)" and ?mx = "Max (set buffer)"
  have fin: "finite (set buffer)" "set buffer \<noteq> {}" using ne by simp_all
  have mn: "?mn \<in> set buffer" using fin by (rule Min_in)
  have mx: "?mx \<in> set buffer" using fin by (rule Max_in)
  have le: "?mn \<le> ?mx" using lt by simp
  have "normalized ?mn ?mx ?mn = 0"
    by (rule normalized_props(5) [OF lt order_refl le refl])
  with mn show "0 \<in> set (map (normalized ?mn ?mx) buffer)"
    by (metis image_eqI set_map)
  have "normalized ?mn ?mx ?mx = 1023"
    by (rule normalized_props(6) [OF lt le order_refl refl])
  with mx show "1023 \<in> set (map (normalized ?mn ?mx) buffer)"
    by (metis image_eqI set_map)
  fix r
  assume "r \<in> set (map (normalized ?mn ?mx) buffer)"
  then obtain v where v: "v \<in> set buffer" and r: "r = normalized ?mn ?mx v" by auto
  from v have "?mn \<le> v" "v \<le> ?mx" by simp_all
  from normalized_props(2) [OF lt this] show "r \<le> 1023"
    by (simp add: r word_le_def)
qed

lemma normalized_extrema:
  assumes ne: "buffer \<noteq> []" and lt: "Min (set buffer) < Max (set buffer)"
  shows "Min (set (map (normalized (Min (set buffer)) (Max (set buffer))) buffer)) = 0"
    and "Max (set (map (normalized (Min (set buffer)) (Max (set buffer))) buffer)) = 1023"
proof -
  note r = normalized_range [OF ne lt]
  show "Min (set (map (normalized (Min (set buffer)) (Max (set buffer))) buffer)) = 0"
    using r(1) by (intro Min_eqI) simp_all
  show "Max (set (map (normalized (Min (set buffer)) (Max (set buffer))) buffer)) = 1023"
    using r(2) r(3) by (intro Max_eqI) simp_all
qed

lemma frame_mult_full_range: "frame_mult 0 1023 = Finite 1"
proof -
  have "frame_mult 0 1023 = round_f32 (1023 / of_int (uint (1023 :: u16) - uint (0 :: u16)))"
    by (rule frame_mult_eq) simp
  also have "\<dots> = round_f32 (of_int 1)" by simp
  also have "\<dots> = Finite (of_int 1)" by (rule round_f32_of_int) simp_all
  finally show ?thesis by simp
qed

lemma normalized_identity: "normalized 0 1023 v = v"
proof -
  have b: "0 \<le> uint v" "uint v < 65536" using uint_bounded [of v] by simp_all
  have "f32_mul (f32_of_int (uint v - uint (0 :: u16))) (Finite 1)
      = round_f32 (of_int (uint v))"
    by (simp add: f32_of_uint)
  also have "\<dots> = Finite (of_int (uint v))"
    using b by (intro round_f32_of_int) simp_all
  finally have "normalize_sample 0 (frame_mult 0 1023) v
      = to_u16 (c_round (Finite (of_int (uint v))))"
    by (simp only: normalize_sample_def frame_mult_full_range)
  also have "\<dots> = Inr (word_of_int (uint v))"
    using round_away_of_int b by (rule to_u16_of_int)
  finally show ?thesis by (simp add: normalized_def)
qed

lemma normalize_frame_full_range:
  assumes len: "length buffer = 4 * w * h" and ne: "buffer \<noteq> []"
    and mn: "Min (set buffer) = 0" and mx: "Max (set buffer) = 1023"
  shows "normalize_frame w h buffer = Inr buffer"
proof -
  have "Min (set buffer) < Max (set buffer)" by (simp add: mn mx)
  from normalize_frame_map [OF len ne this]
  have "normalize_frame w h buffer = Inr (map (normalized 0 1023) buffer)"
    by (simp only: mn mx)
  also have "map (normalized 0 1023) buffer = buffer"
    by (simp add: normalized_identity map_idI)
  finally show ?thesis .
qed

lemma normalize_frame_twice:
  assumes len: "length buffer = 4 * w * h" and ne: "buffer \<noteq> []"
    and lt: "Min (set buffer) < Max (set buffer)"
  shows "\<exists>once. normalize_frame w h buffer = Inr once \<and> normalize_frame w h once = Inr once"
proof -
  let ?once = "map (normalized (Min (set buffer)) (Max (set buffer))) buffer"
  have 1: "normalize_frame w h buffer = Inr ?once"
    by (rule normalize_frame_map [OF len ne lt])
  have "normalize_frame w h ?once = Inr ?once"
  proof (rule normalize_frame_full_range)
    show "length ?once = 4 * w * h" using len by simp
    show "?once \<noteq> []" using ne by simp
    show "Min (set ?once) = 0" by (rule normalized_extrema(1) [OF ne lt])
    show "Max (set ?once) = 1023" by (rule normalized_extrema(2) [OF ne lt])
  qed
  with 1 show ?thesis by blast
qed

subsection \<open>The rescaling to 8 bits\<close>

lemma MAX_values: "MAX_RGB = 255" "MAX_RG10 = 1023"
  by (simp_all add: MAX_RGB_def MAX_RG10_def RGB_BITS_def RG10_BITS_def)

lemma norm_factor: "f32_div (f32_of_int 255) (f32_of_int 1023) = Finite (1045501 / 4194304)"
  by code_simp

lemma NORM_eq:
  assumes "0 \<le> v" "v < 2 ^ 24"
  shows "NORM v = round_f32 (of_int v * (1045501 / 4194304))"
  by (simp only: NORM_def MAX_values norm_factor f32_of_int_exact [OF assms] f32_mul.simps)

lemma scale_remainder: "(255 * v) mod 1023 \<le> 1020" for v :: int
proof -
  have "3 * ((85 * v) mod 341) = (3 * (85 * v)) mod (3 * 341)"
    by (rule mult_mod_right)
  then have "(255 * v) mod 1023 = 3 * ((85 * v) mod 341)" by simp
  moreover have "(85 * v) mod 341 < 341" by simp
  ultimately show ?thesis by linarith
qed

lemma spec_scale_div: "spec_scale v = (255 * v) div 1023"
proof -
  have "rat_of_int v * 255 / 1023 = rat_of_int (255 * v) / rat_of_int 1023" by simp
  then show ?thesis
    unfolding spec_scale_def by (simp only: floor_divide_of_int_eq)
qed

lemma to_u8_NORM:
  assumes v: "0 \<le> v" "v \<le> 1023"
  shows "to_u8 (NORM v) = Inr (word_of_int (spec_scale v))"
    and "0 \<le> spec_scale v" and "spec_scale v \<le> 255"
proof -
  define k where "k = spec_scale v"
  define m where "m = (255 * v) mod 1023"
  define x :: rat where "x = of_int v * (1045501 / 4194304)"
  have kv: "255 * v = 1023 * k + m"
    unfolding k_def m_def spec_scale_div by (rule mult_div_mod_eq [symmetric])
  have m: "0 \<le> m" "m \<le> 1020"
    unfolding m_def using scale_remainder [of v] by simp_all
  have "rat_of_int (255 * v) = rat_of_int (1023 * k + m)" by (simp only: kv)
  then have kq: "255 * rat_of_int v = 1023 * rat_of_int k + rat_of_int m"
    by (simp only: of_int_add of_int_mult of_int_numeral)
  have mq: "0 \<le> rat_of_int m" "rat_of_int m \<le> 1020" using m by simp_all
  have vq: "0 \<le> rat_of_int v" "rat_of_int v \<le> 1023" using v by simp_all
  have xk: "rat_of_int k \<le> x" unfolding x_def using kq mq vq by linarith
  have xk1: "x + 1 / 131072 < rat_of_int k + 1" unfolding x_def using kq mq vq by linarith
  have k0: "0 \<le> k"
  proof -
    have "- 1 < rat_of_int k" using kq mq vq by linarith
    then have "rat_of_int (- 1) < rat_of_int k" by simp
    then have "- 1 < k" by (simp only: of_int_less_iff)
    then show ?thesis by simp
  qed
  have k255: "k \<le> 255"
  proof -
    have "rat_of_int k < 256" using kq mq vq by linarith
    then have "rat_of_int k < rat_of_int 256" by simp
    then have "k < 256" by (simp only: of_int_less_iff)
    then show ?thesis by simp
  qed
  have conv: "to_u8 (NORM v) = Inr (word_of_int k)"
  proof (cases "v = 0")
    case True
    then have "k = 0" by (simp add: k_def spec_scale_def)
    moreover have "NORM 0 = Finite 0"
      using NORM_eq [of 0] by (simp add: round_f32_0)
    ultimately show ?thesis using True by (simp add: to_u8_def trunc_def)
  next
    case False
    with v have "1 \<le> rat_of_int v" by simp
    then have x1: "1 / 8 \<le> x" unfolding x_def by linarith
    have lo: "pow2 (- 126) \<le> x" using x1 pow2_126_small by linarith
    have "x < 256" unfolding x_def using vq by linarith
    then have hi: "x < pow2 8" by (simp add: pow2_numeral_simps)
    then have hi24: "x < pow2 24" using pow2_mono [of 8 24] by linarith
    have fl: "\<lfloor>x\<rfloor> = k" using xk xk1 by (intro floor_unique) linarith+
    from round_f32_floor [OF lo hi24] obtain r
      where r: "round_f32 x = Finite r" "of_int \<lfloor>x\<rfloor> \<le> r" by blast
    from round_f32_abs_error [OF lo hi] obtain r'
      where r': "round_f32 x = Finite r'" "\<bar>r' - x\<bar> \<le> pow2 (8 - 25)" by auto
    from r(1) r'(1) have "r' = r" by simp
    with r'(2) have "\<bar>r - x\<bar> \<le> 1 / 131072" by (simp add: pow2_numeral_simps)
    then have "r < rat_of_int k + 1" using xk1 by linarith
    moreover have "rat_of_int k \<le> r" using r(2) fl by simp
    ultimately have "\<lfloor>r\<rfloor> = k" by (intro floor_unique)
    moreover have "0 \<le> r" using \<open>rat_of_int k \<le> r\<close> k0 by (simp add: order_trans [of 0 "rat_of_int k"])
    ultimately have t: "trunc r = k" by (simp add: trunc_def)
    have "NORM v = Finite r"
      using NORM_eq [of v] v r(1) by (simp add: x_def)
    then show ?thesis using t k0 k255 by (simp add: to_u8_def)
  qed
  show "to_u8 (NORM v) = Inr (word_of_int (spec_scale v))" using conv by (simp only: k_def)
  show "0 \<le> spec_scale v" using k0 by (simp only: k_def)
  show "spec_scale v \<le> 255" using k255 by (simp only: k_def)
qed

lemma to_u8_error: "to_u8 f = Inl e \<Longrightarrow> e = UndefinedConversion"
  by (cases f) (auto simp add: to_u8_def bind_err_def split: if_splits)

subsection \<open>The loops of debayer\<close>

lemma pair_unique:
  fixes m a a' y y' :: nat
  assumes "a < m" "a' < m" "y * m + a = y' * m + a'"
  shows "y = y'" and "a = a'"
proof -
  have "(y * m + a) div m = y" "(y' * m + a') div m = y'" using assms(1,2) by simp_all
  with assms(3) show "y = y'" by simp
  with assms(3) show "a = a'" by simp
qed

lemma debayer_px_eq:
  assumes "4 * w * y + 2 * w + 2 * x + 1 < length buffer" "3 * (y * w + x) + 2 < length img"
  shows "debayer_px w buffer y x img =
    bind_err (pixel_R w buffer x y) (\<lambda>r.
    bind_err (pixel_B w buffer x y) (\<lambda>b.
    bind_err (pixel_G w buffer x y) (\<lambda>g.
      Inr (img[3 * (y * w + x) + 2 := r, 3 * (y * w + x) := b, 3 * (y * w + x) + 1 := g]))))"
  using assms
  by (simp add: debayer_px_def pixel_R_def pixel_B_def pixel_G_def load_def store_def
      RG10_LOCATION_simps RGB_LOCATION_simps bind_err_def split: sum.splits)

lemma debayer_px_length:
  assumes "debayer_px w buffer y x img = Inr img'"
    and "4 * w * y + 2 * w + 2 * x + 1 < length buffer" "3 * (y * w + x) + 2 < length img"
  shows "length img' = length img"
  using assms(1) unfolding debayer_px_eq [OF assms(2,3)]
  by (auto simp add: bind_err_eq_Inr)

lemma debayer_px_painted:
  assumes run: "debayer_px w buffer y x img = Inr img'"
    and b: "4 * w * y + 2 * w + 2 * x + 1 < length buffer" "3 * (y * w + x) + 2 < length img"
    and x: "x < w"
    and inv: "painted w buffer (y * w + x) img"
  shows "painted w buffer (Suc (y * w + x)) img'"
proof -
  let ?n = "y * w + x"
  from run obtain r b' g where r: "pixel_R w buffer x y = Inr r"
    and b': "pixel_B w buffer x y = Inr b'" and g: "pixel_G w buffer x y = Inr g"
    and img': "img' = img[3 * ?n + 2 := r, 3 * ?n := b', 3 * ?n + 1 := g]"
    unfolding debayer_px_eq [OF b] by (auto simp add: bind_err_eq_Inr)
  have old: "img' ! j = img ! j" if "j < 3 * ?n" for j
    using that by (simp add: img')
  have new: "img' ! (3 * ?n + 2) = r" "img' ! (3 * ?n) = b'" "img' ! (3 * ?n + 1) = g"
    using b(2) by (simp_all add: img')
  show ?thesis
    unfolding painted_def
  proof (intro allI impI)
    fix x' y'
    assume a: "x' < w \<and> y' * w + x' < Suc ?n"
    show "pixel_R w buffer x' y' = Inr (img' ! RGB_LOCATION w x' y' RGB_R)
        \<and> pixel_B w buffer x' y' = Inr (img' ! RGB_LOCATION w x' y' RGB_B)
        \<and> pixel_G w buffer x' y' = Inr (img' ! RGB_LOCATION w x' y' RGB_G)"
    proof (cases "y' * w + x' = ?n")
      case True
      from a x True have e: "y' = y" "x' = x" by (auto dest: pair_unique)
      show ?thesis unfolding e RGB_LOCATION_simps new r b' g by simp
    next
      case False
      with a have lt: "y' * w + x' < ?n" by simp
      then have "3 * (y' * w + x') + 2 < 3 * ?n" by simp
      then have same: "img' ! (3 * (y' * w + x') + 2) = img ! (3 * (y' * w + x') + 2)"
        "img' ! (3 * (y' * w + x')) = img ! (3 * (y' * w + x'))"
        "img' ! (3 * (y' * w + x') + 1) = img ! (3 * (y' * w + x') + 1)"
        by (intro old; simp)+
      from inv a lt
      have "pixel_R w buffer x' y' = Inr (img ! RGB_LOCATION w x' y' RGB_R)
        \<and> pixel_B w buffer x' y' = Inr (img ! RGB_LOCATION w x' y' RGB_B)
        \<and> pixel_G w buffer x' y' = Inr (img ! RGB_LOCATION w x' y' RGB_G)"
        unfolding painted_def by blast
      then show ?thesis unfolding RGB_LOCATION_simps same .
    qed
  qed
qed

lemma debayer_bounds:
  fixes w h x y :: nat
  assumes "x < w" "y < h" "length buffer = 4 * w * h" "length img = 3 * w * h"
  shows "4 * w * y + 2 * w + 2 * x + 1 < length buffer" "3 * (y * w + x) + 2 < length img"
  using RG10_in_bounds [OF assms(1,2)] RGB_in_bounds [OF assms(1,2)] assms(3,4) by simp_all

lemma debayer_into_painted:
  assumes run: "debayer_into w h buffer img0 = Inr img"
    and len: "length buffer = 4 * w * h" "length img0 = 3 * w * h"
  shows "length img = 3 * w * h" and "painted w buffer (h * w) img"
proof -
  let ?I = "\<lambda>n img. length img = 3 * w * h \<and> painted w buffer n img"
  have "?I (h * w) img"
  proof (rule for_loop_partial [where I = "\<lambda>y. ?I (y * w)", OF run [unfolded debayer_into_def]])
    show "?I (0 * w) img0" by (simp add: len painted_def)
  next
    fix y a b
    assume y: "y < h" and a: "?I (y * w) a"
      and row: "for_loop w (\<lambda>x. debayer_px w buffer y x) a = Inr b"
    have "?I (y * w + w) b"
    proof (rule for_loop_partial [where I = "\<lambda>x. ?I (y * w + x)", OF row])
      show "?I (y * w + 0) a" using a by simp
    next
      fix x c d
      assume x: "x < w" and c: "?I (y * w + x) c" and px: "debayer_px w buffer y x c = Inr d"
      from c have lc: "length c = 3 * w * h" by simp
      note bnd = debayer_bounds [OF x y len(1) lc]
      have "length d = 3 * w * h" using debayer_px_length [OF px bnd] lc by simp
      moreover have "painted w buffer (Suc (y * w + x)) d"
        by (rule debayer_px_painted [OF px bnd x conjunct2 [OF c]])
      ultimately show "?I (y * w + Suc x) d" by simp
    qed
    then show "?I (Suc y * w) b" by (simp add: add.commute)
  qed
  then show "length img = 3 * w * h" and "painted w buffer (h * w) img" by simp_all
qed

lemma pixel_index:
  fixes w h x y :: nat
  assumes "x < w" "y < h"
  shows "y * w + x < h * w"
  using rows_le [OF assms(2), of w] assms(1) by (simp add: mult.commute)

lemma debayer_into_pixels:
  assumes run: "debayer_into w h buffer img0 = Inr img"
    and len: "length buffer = 4 * w * h" "length img0 = 3 * w * h"
    and xy: "x < w" "y < h"
  shows "pixel_R w buffer x y = Inr (img ! RGB_LOCATION w x y RGB_R)"
    and "pixel_B w buffer x y = Inr (img ! RGB_LOCATION w x y RGB_B)"
    and "pixel_G w buffer x y = Inr (img ! RGB_LOCATION w x y RGB_G)"
  using debayer_into_painted(2) [OF run len] xy(1) pixel_index [OF xy]
  unfolding painted_def by blast+

lemma debayer_into_total:
  assumes len: "length buffer = 4 * w * h" "length img0 = 3 * w * h"
    and ok: "\<And>x y. x < w \<Longrightarrow> y < h \<Longrightarrow>
      (\<exists>r. pixel_R w buffer x y = Inr r) \<and> (\<exists>b. pixel_B w buffer x y = Inr b)
      \<and> (\<exists>g. pixel_G w buffer x y = Inr g)"
  shows "\<exists>img. debayer_into w h buffer img0 = Inr img"
proof -
  let ?I = "\<lambda>img :: u8 list. length img = 3 * w * h"
  have "\<exists>img. for_loop h (\<lambda>y. for_loop w (\<lambda>x. debayer_px w buffer y x)) img0 = Inr img \<and> ?I img"
  proof (rule for_loop_total [where I = "\<lambda>y. ?I"])
    show "?I img0" by (rule len(2))
  next
    fix y a
    assume y: "y < h" and a: "?I a"
    show "\<exists>b. for_loop w (\<lambda>x. debayer_px w buffer y x) a = Inr b \<and> ?I b"
    proof (rule for_loop_total [where I = "\<lambda>x. ?I"])
      show "?I a" by (rule a)
    next
      fix x c
      assume x: "x < w" and c: "?I c"
      note bnd = debayer_bounds [OF x y len(1) c]
      from ok [OF x y] obtain r b g where "pixel_R w buffer x y = Inr r"
        "pixel_B w buffer x y = Inr b" "pixel_G w buffer x y = Inr g" by blast
      then show "\<exists>d. debayer_px w buffer y x c = Inr d \<and> ?I d"
        unfolding debayer_px_eq [OF bnd] using c by simp
    qed
  qed
  then show ?thesis unfolding debayer_into_def by blast
qed

lemma debayer_px_error:
  assumes "debayer_px w buffer y x img = Inl e"
    and "4 * w * y + 2 * w + 2 * x + 1 < length buffer" "3 * (y * w + x) + 2 < length img"
  shows "e = UndefinedConversion"
  using assms(1) unfolding debayer_px_eq [OF assms(2,3)] pixel_R_def pixel_B_def pixel_G_def
  by (auto simp add: bind_err_eq_Inl dest: to_u8_error)

lemma debayer_into_error:
  assumes run: "debayer_into w h buffer img0 = Inl e"
    and len: "length buffer = 4 * w * h" "length img0 = 3 * w * h"
  shows "e = UndefinedConversion"
proof -
  let ?I = "\<lambda>img :: u8 list. length img = 3 * w * h"
  have row: "?I b" if "y < h" "?I a" "for_loop w (\<lambda>x. debayer_px w buffer y x) a = Inr b"
    for y a b
  proof (rule for_loop_partial [where I = "\<lambda>x. ?I", OF that(3) that(2)])
    fix x c d
    assume x: "x < w" and c: "?I c" and px: "debayer_px w buffer y x c = Inr d"
    show "?I d"
      using debayer_px_length [OF px debayer_bounds [OF x that(1) len(1) c]] c by simp
  qed
  have "\<exists>y a. y < h \<and> ?I a \<and> for_loop w (\<lambda>x. debayer_px w buffer y x) a = Inl e"
  proof (rule for_loop_error [where I = "\<lambda>y. ?I", OF run [unfolded debayer_into_def] len(2)])
    fix y a b
    assume "y < h" "?I a" "for_loop w (\<lambda>x. debayer_px w buffer y x) a = Inr b"
    then show "?I b" by (rule row)
  qed
  then obtain y a where y: "y < h" and a: "?I a"
    and fail: "for_loop w (\<lambda>x. debayer_px w buffer y x) a = Inl e" by blast
  have "\<exists>x c. x < w \<and> ?I c \<and> debayer_px w buffer y x c = Inl e"
  proof (rule for_loop_error [where I = "\<lambda>x. ?I", OF fail a])
    fix x c d
    assume x: "x < w" and c: "?I c" and px: "debayer_px w buffer y x c = Inr d"
    show "?I d"
      using debayer_px_length [OF px debayer_bounds [OF x y len(1) c]] c by simp
  qed
  then obtain x c where x: "x < w" and c: "?I c" and px: "debayer_px w buffer y x c = Inl e"
    by blast
  show ?thesis
    by (rule debayer_px_error [OF px debayer_bounds [OF x y len(1) c]])
qed

subsection \<open>Every byte of the image is a channel of a pixel\<close>

lemma rgb_index_cases:
  fixes w h i :: nat
  assumes "i < 3 * w * h"
  obtains x y c where "x < w" "y < h" "c < 3" "i = 3 * (y * w + x) + c"
proof -
  from assms have w: "0 < w" by (cases "w = 0") simp_all
  define p where "p = i div 3"
  have p: "p < h * w" unfolding p_def using assms by (simp add: mult.commute ac_simps)
  show thesis
  proof (rule that)
    show "p mod w < w" using w by simp
    show "p div w < h" using p by (rule less_mult_imp_div_less)
    show "i mod 3 < 3" by simp
    show "i = 3 * (p div w * w + p mod w) + i mod 3" by (simp add: p_def)
  qed
qed

lemma painted_unique:
  assumes "length a = 3 * w * h" "length b = 3 * w * h"
    and "painted w buffer (h * w) a" "painted w buffer (h * w) b"
  shows "a = b"
proof (rule nth_equalityI)
  show "length a = length b" using assms(1,2) by simp
next
  fix i
  assume "i < length a"
  then have "i < 3 * w * h" using assms(1) by simp
  then obtain x y c where xy: "x < w" "y < h" and c: "c < 3" and i: "i = 3 * (y * w + x) + c"
    by (rule rgb_index_cases)
  have n: "y * w + x < h * w" using xy by (rule pixel_index)
  from assms(3) xy(1) n
  have pa: "pixel_R w buffer x y = Inr (a ! (3 * (y * w + x) + 2))"
    "pixel_B w buffer x y = Inr (a ! (3 * (y * w + x)))"
    "pixel_G w buffer x y = Inr (a ! (3 * (y * w + x) + 1))"
    unfolding painted_def RGB_LOCATION_simps by blast+
  from assms(4) xy(1) n
  have pb: "pixel_R w buffer x y = Inr (b ! (3 * (y * w + x) + 2))"
    "pixel_B w buffer x y = Inr (b ! (3 * (y * w + x)))"
    "pixel_G w buffer x y = Inr (b ! (3 * (y * w + x) + 1))"
    unfolding painted_def RGB_LOCATION_simps by blast+
  from c consider "c = 0" | "c = 1" | "c = 2" by linarith
  then show "a ! i = b ! i"
  proof cases
    case 1
    with pa(2) pb(2) show ?thesis by (simp add: i)
  next
    case 2
    with pa(3) pb(3) show ?thesis by (simp add: i)
  next
    case 3
    with pa(1) pb(1) show ?thesis by (simp add: i)
  qed
qed

lemma RGB_SIZE_eq: "RGB_SIZE w h = 3 * w * h"
  by (simp add: RGB_SIZE_def RGB_COLORS_def RGB_COLOR_SIZE_def)

lemma RG10_SIZE_eq: "RG10_SIZE w h = 8 * w * h"
  by (simp add: RG10_SIZE_def RG10_COLORS_def RG10_COLOR_SIZE_def)

lemma painted_ok:
  assumes "painted w buffer (h * w) img" "x < w" "y < h"
  shows "(\<exists>r. pixel_R w buffer x y = Inr r) \<and> (\<exists>b. pixel_B w buffer x y = Inr b)
      \<and> (\<exists>g. pixel_G w buffer x y = Inr g)"
  using assms(1,2) pixel_index [OF assms(2,3)] unfolding painted_def by blast

text \<open>The result of \<^verbatim>\<open>debayer\<close> does not depend on what \<^verbatim>\<open>malloc\<close> left in the image.\<close>

lemma debayer_into_any:
  assumes len: "length buffer = 4 * w * h" "length img0 = 3 * w * h"
  shows "debayer_into w h buffer img0 = debayer w h buffer"
proof -
  let ?z = "replicate (RGB_SIZE w h) (0 :: u8)"
  have lz: "length ?z = 3 * w * h" by (simp add: RGB_SIZE_eq)
  have *: "debayer_into w h buffer b = Inr img"
    if "debayer_into w h buffer a = Inr img" "length a = 3 * w * h" "length b = 3 * w * h"
    for a b img
  proof -
    note pa = debayer_into_painted [OF that(1) len(1) that(2)]
    have "\<exists>img'. debayer_into w h buffer b = Inr img'"
      using len(1) that(3) by (rule debayer_into_total) (rule painted_ok [OF pa(2)])
    then obtain img' where b: "debayer_into w h buffer b = Inr img'" by blast
    note pb = debayer_into_painted [OF b len(1) that(3)]
    have "img' = img" using pb(1) pa(1) pb(2) pa(2) by (rule painted_unique)
    with b show ?thesis by simp
  qed
  show ?thesis
  proof (cases "debayer_into w h buffer img0")
    case (Inr img)
    from * [OF Inr len(2) lz] Inr show ?thesis by (simp add: debayer_def)
  next
    case (Inl e)
    then have e: "e = UndefinedConversion" using len by (rule debayer_into_error)
    show ?thesis
    proof (cases "debayer_into w h buffer ?z")
      case (Inr img)
      from * [OF Inr lz len(2)] Inl show ?thesis by simp
    next
      case Inl': (Inl e')
      then have "e' = UndefinedConversion" using len(1) lz by (rule debayer_into_error)
      with e Inl Inl' show ?thesis by (simp add: debayer_def)
    qed
  qed
qed

lemma debayer_pixels:
  assumes run: "debayer w h buffer = Inr img"
    and len: "length buffer = 4 * w * h"
  shows "length img = 3 * w * h"
    and "\<And>x y. x < w \<Longrightarrow> y < h \<Longrightarrow> pixel_R w buffer x y = Inr (img ! RGB_LOCATION w x y RGB_R)"
    and "\<And>x y. x < w \<Longrightarrow> y < h \<Longrightarrow> pixel_B w buffer x y = Inr (img ! RGB_LOCATION w x y RGB_B)"
    and "\<And>x y. x < w \<Longrightarrow> y < h \<Longrightarrow> pixel_G w buffer x y = Inr (img ! RGB_LOCATION w x y RGB_G)"
proof -
  have lz: "length (replicate (RGB_SIZE w h) (0 :: u8)) = 3 * w * h" by (simp add: RGB_SIZE_eq)
  note r = run [unfolded debayer_def]
  show "length img = 3 * w * h" by (rule debayer_into_painted(1) [OF r len lz])
  fix x y
  assume xy: "x < w" "y < h"
  show "pixel_R w buffer x y = Inr (img ! RGB_LOCATION w x y RGB_R)"
    by (rule debayer_into_pixels(1) [OF r len lz xy])
  show "pixel_B w buffer x y = Inr (img ! RGB_LOCATION w x y RGB_B)"
    by (rule debayer_into_pixels(2) [OF r len lz xy])
  show "pixel_G w buffer x y = Inr (img ! RGB_LOCATION w x y RGB_G)"
    by (rule debayer_into_pixels(3) [OF r len lz xy])
qed

subsection \<open>debayer on 10-bit samples\<close>

lemma uint_word_of_int_u8:
  assumes "0 \<le> k" "k \<le> 255"
  shows "uint (word_of_int k :: u8) = k"
  using assms by (simp add: uint_word_of_int take_bit_int_eq_self)

lemma sample_in_frame:
  fixes w h x y :: nat
  assumes "length buffer = 4 * w * h" "x < w" "y < h"
  shows "buffer ! RG10_LOCATION w x y RG10_R \<in> set buffer"
    and "buffer ! RG10_LOCATION w x y RG10_Gr \<in> set buffer"
    and "buffer ! RG10_LOCATION w x y (RG10_Gb w) \<in> set buffer"
    and "buffer ! RG10_LOCATION w x y (RG10_B w) \<in> set buffer"
  using RG10_in_bounds [OF assms(2,3)] assms(1)
  by (simp_all add: RG10_LOCATION_simps)

lemma pixels_10bit:
  assumes len: "length buffer = 4 * w * h" and xy: "x < w" "y < h"
    and ten: "\<And>v. v \<in> set buffer \<Longrightarrow> v \<le> 1023"
  shows "pixel_R w buffer x y
      = Inr (word_of_int (spec_scale (uint (buffer ! RG10_LOCATION w x y RG10_R))))"
    and "pixel_B w buffer x y
      = Inr (word_of_int (spec_scale (uint (buffer ! RG10_LOCATION w x y (RG10_B w)))))"
    and "pixel_G w buffer x y
      = Inr (word_of_int (spec_scale ((uint (buffer ! RG10_LOCATION w x y (RG10_Gb w))
                + uint (buffer ! RG10_LOCATION w x y RG10_Gr)) div 2)))"
proof -
  note s = sample_in_frame [OF len xy]
  have u: "0 \<le> uint v \<and> uint v \<le> 1023" if "v \<in> set buffer" for v
    using ten [OF that] by (simp add: word_le_def)
  show "pixel_R w buffer x y
      = Inr (word_of_int (spec_scale (uint (buffer ! RG10_LOCATION w x y RG10_R))))"
    unfolding pixel_R_def using u [OF s(1)] by (intro to_u8_NORM(1)) simp_all
  show "pixel_B w buffer x y
      = Inr (word_of_int (spec_scale (uint (buffer ! RG10_LOCATION w x y (RG10_B w)))))"
    unfolding pixel_B_def using u [OF s(4)] by (intro to_u8_NORM(1)) simp_all
  show "pixel_G w buffer x y
      = Inr (word_of_int (spec_scale ((uint (buffer ! RG10_LOCATION w x y (RG10_Gb w))
                + uint (buffer ! RG10_LOCATION w x y RG10_Gr)) div 2)))"
    unfolding pixel_G_def using u [OF s(3)] u [OF s(2)] by (intro to_u8_NORM(1)) simp_all
qed

lemma debayer_10bit_total:
  assumes len: "length buffer = 4 * w * h"
    and ten: "\<And>v. v \<in> set buffer \<Longrightarrow> v \<le> 1023"
  shows "\<exists>img. debayer w h buffer = Inr img"
  unfolding debayer_def
proof (rule debayer_into_total [OF len])
  show "length (replicate (RGB_SIZE w h) (0 :: u8)) = 3 * w * h" by (simp add: RGB_SIZE_eq)
  fix x y
  assume "x < w" "y < h"
  from pixels_10bit [OF len this ten]
  show "(\<exists>r. pixel_R w buffer x y = Inr r) \<and> (\<exists>b. pixel_B w buffer x y = Inr b)
      \<and> (\<exists>g. pixel_G w buffer x y = Inr g)"
    by blast
qed

lemma uint_scaled:
  assumes "0 \<le> v" "v \<le> 1023"
  shows "uint (word_of_int (spec_scale v) :: u8) = spec_scale v"
  using to_u8_NORM(2,3) [OF assms] by (rule uint_word_of_int_u8)

subsection \<open>Perturbing one red sample\<close>

lemma halve_position:
  fixes w a y a0 y0 :: nat
  assumes "4 * w * y + 2 * a = 4 * w * y0 + 2 * a0"
  shows "y * (2 * w) + a = y0 * (2 * w) + a0"
proof -
  have "4 * w * y + 2 * a = 2 * (y * (2 * w) + a)" by (simp add: algebra_simps)
  moreover have "4 * w * y0 + 2 * a0 = 2 * (y0 * (2 * w) + a0)" by (simp add: algebra_simps)
  ultimately have "2 * (y * (2 * w) + a) = 2 * (y0 * (2 * w) + a0)"
    using assms by (simp only:)
  then show ?thesis by (simp only: mult_cancel_left) simp
qed

lemma red_position_unique:
  fixes w x y x0 y0 :: nat
  assumes "x < w" "x0 < w"
  shows "4 * w * y + 2 * x = 4 * w * y0 + 2 * x0 \<longleftrightarrow> x = x0 \<and> y = y0"
    and "4 * w * y + 2 * x + 1 \<noteq> 4 * w * y0 + 2 * x0"
    and "4 * w * y + 2 * w + 2 * x \<noteq> 4 * w * y0 + 2 * x0"
    and "4 * w * y + 2 * w + 2 * x + 1 \<noteq> 4 * w * y0 + 2 * x0"
proof -
  have x2: "x < 2 * w" "x0 < 2 * w" "w + x < 2 * w" using assms by simp_all
  show "4 * w * y + 2 * x = 4 * w * y0 + 2 * x0 \<longleftrightarrow> x = x0 \<and> y = y0"
  proof
    assume "4 * w * y + 2 * x = 4 * w * y0 + 2 * x0"
    then have e: "y * (2 * w) + x = y0 * (2 * w) + x0" by (rule halve_position)
    from pair_unique [OF x2(1,2) e] show "x = x0 \<and> y = y0" by simp
  next
    assume "x = x0 \<and> y = y0"
    then show "4 * w * y + 2 * x = 4 * w * y0 + 2 * x0" by simp
  qed
  show "4 * w * y + 2 * x + 1 \<noteq> 4 * w * y0 + 2 * x0"
  proof
    assume "4 * w * y + 2 * x + 1 = 4 * w * y0 + 2 * x0"
    then have "even (4 * w * y + 2 * x + 1) = even (4 * w * y0 + 2 * x0)"
      by (rule arg_cong [where f = even])
    then show False by simp
  qed
  show "4 * w * y + 2 * w + 2 * x + 1 \<noteq> 4 * w * y0 + 2 * x0"
  proof
    assume "4 * w * y + 2 * w + 2 * x + 1 = 4 * w * y0 + 2 * x0"
    then have "even (4 * w * y + 2 * w + 2 * x + 1) = even (4 * w * y0 + 2 * x0)"
      by (rule arg_cong [where f = even])
    then show False by simp
  qed
  show "4 * w * y + 2 * w + 2 * x \<noteq> 4 * w * y0 + 2 * x0"
  proof
    assume "4 * w * y + 2 * w + 2 * x = 4 * w * y0 + 2 * x0"
    then have "4 * w * y + 2 * (w + x) = 4 * w * y0 + 2 * x0" by simp
    then have e: "y * (2 * w) + (w + x) = y0 * (2 * w) + x0" by (rule halve_position)
    from pair_unique(2) [OF x2(3,2) e] assms(2) show False by simp
  qed
qed

lemma pixels_after_red_change:
  assumes len: "length f' = length f"
    and same: "\<And>i. i < length f \<Longrightarrow> i \<noteq> RG10_LOCATION w x0 y0 RG10_R \<Longrightarrow> f' ! i = f ! i"
    and lf: "length f = 4 * w * h"
    and xy: "x < w" "y < h" and x0: "x0 < w"
  shows "pixel_B w f' x y = pixel_B w f x y"
    and "pixel_G w f' x y = pixel_G w f x y"
    and "(x, y) \<noteq> (x0, y0) \<Longrightarrow> pixel_R w f' x y = pixel_R w f x y"
proof -
  note b = RG10_in_bounds [OF xy]
  note u = red_position_unique [OF xy(1) x0, of y y0]
  have B: "f' ! (4 * w * y + 2 * w + 2 * x + 1) = f ! (4 * w * y + 2 * w + 2 * x + 1)"
    using b lf u(4) by (intro same) (simp_all add: RG10_LOCATION_simps)
  have Gb: "f' ! (4 * w * y + 2 * w + 2 * x) = f ! (4 * w * y + 2 * w + 2 * x)"
    using b lf u(3) by (intro same) (simp_all add: RG10_LOCATION_simps)
  have Gr: "f' ! (4 * w * y + 2 * x + 1) = f ! (4 * w * y + 2 * x + 1)"
    using b lf u(2) by (intro same) (simp_all add: RG10_LOCATION_simps)
  show "pixel_B w f' x y = pixel_B w f x y"
    by (simp only: pixel_B_def RG10_LOCATION_simps B)
  show "pixel_G w f' x y = pixel_G w f x y"
    by (simp only: pixel_G_def RG10_LOCATION_simps Gb Gr)
  assume "(x, y) \<noteq> (x0, y0)"
  then have "4 * w * y + 2 * x \<noteq> 4 * w * y0 + 2 * x0" using u(1) by simp
  then have "f' ! (4 * w * y + 2 * x) = f ! (4 * w * y + 2 * x)"
    using b lf by (intro same) (simp_all add: RG10_LOCATION_simps)
  then show "pixel_R w f' x y = pixel_R w f x y"
    by (simp only: pixel_R_def RG10_LOCATION_simps)
qed

subsection \<open>The index maps are bijections onto the buffers\<close>

lemma colors_simps: "colors w = {0, 1, 2 * w, 2 * w + 1}"
  by (simp add: colors_def RG10_R_def RG10_Gr_def RG10_Gb_def RG10_B_def RG10_COLOR_SIZE_def
      mult.commute)

lemma RG10_LOCATION_eq: "RG10_LOCATION w x y c = y * (4 * w) + (2 * x + c)"
  by (simp add: RG10_LOCATION_def RG10_COLORS_def RG10_COLOR_SIZE_def mult.commute)

lemma RGB_LOCATION_eq: "RGB_LOCATION w x y c = 3 * (y * w + x) + c"
  by (simp add: RGB_LOCATION_def RGB_COLORS_def)

lemma RG10_LOCATION_bound:
  fixes w h x y c :: nat
  assumes "x < w" "y < h" "c \<in> colors w"
  shows "RG10_LOCATION w x y c < 4 * w * h"
proof -
  from assms(3) have "c \<le> 2 * w + 1" by (auto simp add: colors_simps)
  then have "y * (4 * w) + (2 * x + c) \<le> 4 * w * y + 2 * w + 2 * x + 1" by simp
  also have "\<dots> < 4 * w * h" using assms(1,2) by (rule RG10_in_bounds)
  finally show ?thesis by (simp only: RG10_LOCATION_eq)
qed

lemma RG10_LOCATION_inj:
  fixes w x y c x' y' c' :: nat
  assumes "x < w" "x' < w" "c \<in> colors w" "c' \<in> colors w"
    and eq: "RG10_LOCATION w x y c = RG10_LOCATION w x' y' c'"
  shows "x = x' \<and> y = y' \<and> c = c'"
proof -
  have b: "2 * x + c < 4 * w" "2 * x' + c' < 4 * w"
    using assms(1-4) by (auto simp add: colors_simps)
  from eq have e: "y * (4 * w) + (2 * x + c) = y' * (4 * w) + (2 * x' + c')"
    by (simp only: RG10_LOCATION_eq)
  from pair_unique [OF b e] have y: "y = y'" and r: "2 * x + c = 2 * x' + c'" by simp_all
  from r assms(1-4) have "x = x' \<and> c = c'"
    unfolding colors_simps by (elim insertE emptyE; simp; presburger)
  with y show ?thesis by simp
qed

lemma RG10_LOCATION_surj:
  fixes w h i :: nat
  assumes "i < 4 * w * h"
  shows "\<exists>x y c. x < w \<and> y < h \<and> c \<in> colors w \<and> RG10_LOCATION w x y c = i"
proof -
  from assms have w: "0 < w" by (cases "w = 0") simp_all
  define y where "y = i div (4 * w)"
  define r where "r = i mod (4 * w)"
  have i: "i = y * (4 * w) + r" unfolding y_def r_def by (rule div_mult_mod_eq [symmetric])
  have r: "r < 4 * w" unfolding r_def using w by simp
  have "i < h * (4 * w)" using assms by (simp add: ac_simps)
  then have y: "y < h" unfolding y_def by (rule less_mult_imp_div_less)
  show ?thesis
  proof (cases "r < 2 * w")
    case True
    have "r div 2 < w" using True by simp
    moreover have "r mod 2 \<in> colors w" by (auto simp add: colors_simps)
    moreover have "RG10_LOCATION w (r div 2) y (r mod 2) = i"
      by (simp add: RG10_LOCATION_eq i)
    ultimately show ?thesis using y by blast
  next
    case False
    define q where "q = r - 2 * w"
    have q: "r = 2 * w + q" "q < 2 * w" using False r by (simp_all add: q_def)
    have "q div 2 < w" using q(2) by simp
    moreover have "2 * w + q mod 2 \<in> colors w" by (auto simp add: colors_simps)
    moreover have "RG10_LOCATION w (q div 2) y (2 * w + q mod 2) = i"
      by (simp add: RG10_LOCATION_eq i q(1))
    ultimately show ?thesis using y by blast
  qed
qed

lemma RGB_LOCATION_bound:
  fixes w h x y c :: nat
  assumes "x < w" "y < h" "c < 3"
  shows "RGB_LOCATION w x y c < 3 * w * h"
  using RGB_in_bounds [OF assms(1,2)] assms(3) by (simp add: RGB_LOCATION_eq)

lemma RGB_LOCATION_inj:
  fixes w x y c x' y' c' :: nat
  assumes "x < w" "x' < w" "c < 3" "c' < 3"
    and eq: "RGB_LOCATION w x y c = RGB_LOCATION w x' y' c'"
  shows "x = x' \<and> y = y' \<and> c = c'"
proof -
  from eq have e: "(y * w + x) * 3 + c = (y' * w + x') * 3 + c'"
    by (simp add: RGB_LOCATION_eq)
  from pair_unique [OF assms(3,4) e] have p: "y * w + x = y' * w + x'" and c: "c = c'"
    by simp_all
  from pair_unique [OF assms(1,2) p] c show ?thesis by simp
qed

subsection \<open>No pass leaves its buffer\<close>

lemma min_max_frame_defined:
  assumes "length buffer = 4 * w * h"
  shows "\<exists>s. min_max_frame w h buffer = Inr s"
  using min_max_frame_tracks [OF assms] by blast

lemma normalize_frame_cases:
  assumes len: "length buffer = 4 * w * h"
  shows "normalize_frame w h buffer = Inl UndefinedConversion
    \<or> (\<exists>out. normalize_frame w h buffer = Inr out \<and> length out = length buffer)"
proof (cases "buffer = []")
  case True
  obtain s where s: "min_max_frame w h buffer = Inr s"
    using min_max_frame_defined [OF len] by blast
  obtain mn mx where p: "s = (mn, mx)" by (cases s)
  have "for_loop h (\<lambda>y. for_loop w (\<lambda>x. normalize_px w mn (frame_mult mn mx) y x)) buffer
      = Inr (map id buffer)"
    using len by (rule normalize_loops) (simp add: True)
  then show ?thesis by (simp add: normalize_frame_def s p)
next
  case False
  have "Min (set buffer) \<le> Max (set buffer)" using False by simp
  then consider "Min (set buffer) = Max (set buffer)" | "Min (set buffer) < Max (set buffer)"
    by (auto simp add: order_le_less)
  then show ?thesis
  proof cases
    case 1
    with len False show ?thesis by (simp add: normalize_frame_degenerate)
  next
    case 2
    with len False show ?thesis by (simp add: normalize_frame_map)
  qed
qed

lemma normalize_frame_length:
  assumes "normalize_frame w h buffer = Inr out" "length buffer = 4 * w * h"
  shows "length out = length buffer"
  using normalize_frame_cases [OF assms(2)] assms(1) by auto

lemma debayer_cases:
  assumes len: "length buffer = 4 * w * h"
  shows "debayer w h buffer = Inl UndefinedConversion
    \<or> (\<exists>img. debayer w h buffer = Inr img \<and> length img = RGB_SIZE w h)"
proof (cases "debayer w h buffer")
  case (Inl e)
  have "e = UndefinedConversion"
    by (rule debayer_into_error [OF Inl [unfolded debayer_def] len]) (simp add: RGB_SIZE_eq)
  with Inl show ?thesis by simp
next
  case (Inr img)
  with debayer_pixels(1) [OF Inr len] show ?thesis by (simp add: RGB_SIZE_eq)
qed

subsection \<open>Reading and writing\<close>

lemma length_decode_u16: "length (decode_u16 bytes) = length bytes div 2"
  by (induction bytes rule: decode_u16.induct) simp_all

lemma read_buffer_length:
  assumes "length heap = RG10_SIZE w h"
  shows "length (decode_u16 (take (RG10_SIZE w h) bytes @ drop (length bytes) heap)) = 4 * w * h"
proof -
  have "length (take (RG10_SIZE w h) bytes @ drop (length bytes) heap) = 8 * w * h"
    using assms by (simp add: RG10_SIZE_eq min_def)
  then show ?thesis by (simp add: length_decode_u16)
qed

lemma header_layout:
  "(replicate 18 z)[2 := a, 12 := b, 13 := c, 14 := d, 15 := e, 16 := f, 17 := g]
     = [z, z, a, z, z, z, z, z, z, z, z, z, b, c, d, e, f, g]"
  by (simp add: numeral_eq_Suc)

lemma header_bytes:
  "tga_header w h = [0, 0, 2, 0, 0, 0, 0, 0, 0, 0, 0, 0,
     word_of_nat (w mod 256), word_of_nat (w div 256 mod 256),
     word_of_nat (h mod 256), word_of_nat (h div 256 mod 256), 24, 32]"
proof -
  have m: "255 AND n = n mod 256" for n :: nat
  proof -
    have "255 = (mask 8 :: nat)" by (simp add: mask_eq_exp_minus_1)
    then have "255 AND n = n AND mask 8" by (simp only: and.commute)
    also have "\<dots> = take_bit 8 n" by (simp only: take_bit_eq_mask)
    also have "\<dots> = n mod 256" by (simp add: take_bit_eq_mod)
    finally show ?thesis .
  qed
  have d: "drop_bit 8 n = n div 256" for n :: nat
    by (simp add: drop_bit_eq_div)
  show ?thesis
    by (simp only: tga_header_def header_layout m d)
qed

lemma configured_header:
  "tga_header WIDTH HEIGHT = [0, 0, 2, 0, 0, 0, 0, 0, 0, 0, 0, 0, 128, 7, 56, 4, 24, 32]"
  by (simp add: header_bytes WIDTH_def HEIGHT_def)

lemma u8_of_byte: "unat (word_of_nat (n mod 256) :: u8) = n mod 256"
  by (simp add: unat_of_nat)

lemma header_geometry:
  assumes "w < 65536" "h < 65536"
  shows "tga_width (tga_header w h @ img) = w" "tga_height (tga_header w h @ img) = h"
proof -
  have "w div 256 mod 256 = w div 256" "h div 256 mod 256 = h div 256"
    using assms by simp_all
  then show "tga_width (tga_header w h @ img) = w" "tga_height (tga_header w h @ img) = h"
    using u8_of_byte [of w] u8_of_byte [of "w div 256"]
      u8_of_byte [of h] u8_of_byte [of "h div 256"]
    by (simp_all add: tga_width_def tga_height_def header_bytes nth_append)
qed

subsection \<open>The degenerate frame\<close>

text \<open>
  Claim C3. A frame in which all samples are equal must not yield undefined output:
  normalisation has to take a defined path. The program has no such path. On the uniform
  frame of the configured geometry with every sample 512 the divisor \<open>max - min\<close> is 0,
  \<open>mult\<close> is infinite, \<open>(v - min) * mult\<close> is \<open>0 * \<infinity>\<close>, a NaN, and its conversion to
  \<^verbatim>\<open>uint16_t\<close> at the first statement of the loop is undefined.
\<close>

theorem normalize_frame_uniform_undefined:
  "normalize_frame WIDTH HEIGHT (replicate (4 * WIDTH * HEIGHT) 512) = Inl UndefinedConversion"
proof (rule normalize_frame_degenerate)
  show "length (replicate (4 * WIDTH * HEIGHT) (512 :: u16)) = 4 * WIDTH * HEIGHT" by simp
  show "replicate (4 * WIDTH * HEIGHT) (512 :: u16) \<noteq> []"
    by (simp add: WIDTH_def HEIGHT_def)
  show "Min (set (replicate (4 * WIDTH * HEIGHT) (512 :: u16)))
      = Max (set (replicate (4 * WIDTH * HEIGHT) 512))"
    by (simp add: WIDTH_def HEIGHT_def)
qed


subsection \<open>Normalisation\<close>

text \<open>
  Claim C2, as stated: on a frame with \<open>min < max\<close> every sample \<open>v\<close> is replaced with
  round((v - min) * 1023 / (max - min)), rounded to the nearest integer. The program
  computes the quotient and the product in single precision. On the one-block frame
  with the samples 0, 30, 15, 15 the exact value for 15 is 511.5, which rounds to 512;
  the program stores 511, since the rounded multiplier lies below 34.1.
\<close>

theorem normalize_frame_not_exact:
  "normalize_frame 1 1 [0, 30, 15, 15] = Inr [0, 1023, 511, 511]
   \<and> spec_normalize 0 30 15 = 512"
proof
  show "normalize_frame 1 1 [0, 30, 15, 15] = Inr [0, 1023, 511, 511]"
    by code_simp
  show "spec_normalize 0 30 15 = 512"
    by (simp add: spec_normalize_def round_away_def)
qed

text \<open>
  Claim C2, amended: on a frame with \<open>min < max\<close> normalisation replaces every sample \<open>v\<close>
  in place with the result of the statement evaluated in single precision,
  round(fl((v - min) * fl(1023 / (max - min)))). That result lies within
  \<open>1/2 + 1/8192\<close> of the exact value (v - min) * 1023 / (max - min), hence within 1 of its
  rounding to the nearest integer; every sample of the result lies in [0, 1023], some
  sample is 0 and some sample is 1023.
\<close>

theorem normalize_frame_rescales:
  assumes "length buffer = 4 * w * h" and "buffer \<noteq> []"
    and "Min (set buffer) < Max (set buffer)"
  shows "\<exists>out. normalize_frame w h buffer = Inr out \<and> length out = length buffer
    \<and> (\<forall>i<length buffer.
         normalize_sample (Min (set buffer))
             (frame_mult (Min (set buffer)) (Max (set buffer))) (buffer ! i) = Inr (out ! i)
         \<and> uint (out ! i) \<le> 1023
         \<and> \<bar>rat_of_int (uint (out ! i))
              - of_int (uint (buffer ! i) - uint (Min (set buffer))) * 1023
                / of_int (uint (Max (set buffer)) - uint (Min (set buffer)))\<bar> \<le> 1 / 2 + 1 / 8192
         \<and> \<bar>uint (out ! i) - spec_normalize (uint (Min (set buffer))) (uint (Max (set buffer)))
                                 (uint (buffer ! i))\<bar> \<le> 1)
    \<and> 0 \<in> set out \<and> 1023 \<in> set out"
proof -
  let ?mn = "Min (set buffer)" and ?mx = "Max (set buffer)"
  let ?out = "map (normalized ?mn ?mx) buffer"
  have run: "normalize_frame w h buffer = Inr ?out"
    using assms by (rule normalize_frame_map)
  have each: "normalize_sample ?mn (frame_mult ?mn ?mx) (buffer ! i) = Inr (?out ! i)
         \<and> uint (?out ! i) \<le> 1023
         \<and> \<bar>rat_of_int (uint (?out ! i))
              - of_int (uint (buffer ! i) - uint ?mn) * 1023 / of_int (uint ?mx - uint ?mn)\<bar>
             \<le> 1 / 2 + 1 / 8192
         \<and> \<bar>uint (?out ! i) - spec_normalize (uint ?mn) (uint ?mx) (uint (buffer ! i))\<bar> \<le> 1"
    if i: "i < length buffer" for i
  proof -
    from i have "buffer ! i \<in> set buffer" by simp
    then have v: "?mn \<le> buffer ! i" "buffer ! i \<le> ?mx" by simp_all
    note p = normalized_props [OF assms(3) v]
    from i have o: "?out ! i = normalized ?mn ?mx (buffer ! i)" by simp
    show ?thesis unfolding o using p(1) p(2) p(3) p(4) by (intro conjI)
  qed
  have "0 \<in> set ?out" "1023 \<in> set ?out"
    using assms(2,3) by (rule normalized_range)+
  with run each show ?thesis by (intro exI [of _ ?out]) simp
qed

theorem normalize_frame_rescales_witness:
  "length [0, 30, 15, 15 :: u16] = 4 * 1 * 1 \<and> [0, 30, 15, 15 :: u16] \<noteq> []
   \<and> Min (set [0, 30, 15, 15 :: u16]) < Max (set [0, 30, 15, 15])
   \<and> (\<exists>out. normalize_frame 1 1 [0, 30, 15, 15] = Inr out \<and> 0 \<in> set out \<and> 1023 \<in> set out
        \<and> length out = length [0, 30, 15, 15 :: u16] \<and> uint (out ! 2) \<le> 1023
        \<and> \<bar>uint (out ! 2) - spec_normalize (uint (Min (set [0, 30, 15, 15 :: u16])))
              (uint (Max (set [0, 30, 15, 15 :: u16]))) (uint ([0, 30, 15, 15 :: u16] ! 2))\<bar> \<le> 1)"
proof -
  have a: "length [0, 30, 15, 15 :: u16] = 4 * 1 * 1" by simp
  have b: "[0, 30, 15, 15 :: u16] \<noteq> []" by simp
  have c: "Min (set [0, 30, 15, 15 :: u16]) < Max (set [0, 30, 15, 15])" by simp
  have d: "2 < length [0, 30, 15, 15 :: u16]" by simp
  from normalize_frame_rescales [OF a b c] a b c d show ?thesis by blast
qed

text \<open>
  Claim C7. Normalisation is the identity on a frame whose minimum is 0 and whose
  maximum is 1023, so that applying it twice equals applying it once. Applying it again
  to the result of normalising any frame with \<open>min < max\<close> changes no sample by more than
  1 (it changes none: lemma \<open>normalize_frame_twice\<close>).
\<close>

theorem normalize_frame_idempotent:
  assumes "length buffer = 4 * w * h" and "buffer \<noteq> []"
  shows "(Min (set buffer) = 0 \<and> Max (set buffer) = 1023
            \<longrightarrow> normalize_frame w h buffer = Inr buffer)
    \<and> (Min (set buffer) < Max (set buffer)
            \<longrightarrow> (\<exists>once twice. normalize_frame w h buffer = Inr once
                  \<and> normalize_frame w h once = Inr twice
                  \<and> length once = length buffer \<and> length twice = length once
                  \<and> (\<forall>i<length once. \<bar>uint (twice ! i) - uint (once ! i)\<bar> \<le> 1)))"
proof (intro conjI impI)
  assume "Min (set buffer) = 0 \<and> Max (set buffer) = 1023"
  then show "normalize_frame w h buffer = Inr buffer"
    using assms by (intro normalize_frame_full_range) simp_all
next
  assume "Min (set buffer) < Max (set buffer)"
  with assms obtain once
    where o: "normalize_frame w h buffer = Inr once" "normalize_frame w h once = Inr once"
    using normalize_frame_twice by blast
  have "length once = length buffer"
    using o(1) assms(1) by (rule normalize_frame_length)
  with o show "\<exists>once twice. normalize_frame w h buffer = Inr once
                  \<and> normalize_frame w h once = Inr twice
                  \<and> length once = length buffer \<and> length twice = length once
                  \<and> (\<forall>i<length once. \<bar>uint (twice ! i) - uint (once ! i)\<bar> \<le> 1)"
    by (intro exI [of _ once]) simp
qed

theorem normalize_frame_idempotent_witness:
  "length [0, 1023, 511, 512 :: u16] = 4 * 1 * 1 \<and> [0, 1023, 511, 512 :: u16] \<noteq> []
   \<and> Min (set [0, 1023, 511, 512 :: u16]) = 0 \<and> Max (set [0, 1023, 511, 512 :: u16]) = 1023
   \<and> Min (set [0, 1023, 511, 512 :: u16]) < Max (set [0, 1023, 511, 512])
   \<and> normalize_frame 1 1 [0, 1023, 511, 512] = Inr [0, 1023, 511, 512]
   \<and> (\<exists>once twice. normalize_frame 1 1 [0, 1023, 511, 512] = Inr once
         \<and> normalize_frame 1 1 once = Inr twice
         \<and> length once = length [0, 1023, 511, 512 :: u16] \<and> length twice = length once
         \<and> \<bar>uint (twice ! 3) - uint (once ! 3)\<bar> \<le> 1)"
proof -
  have a: "length [0, 1023, 511, 512 :: u16] = 4 * 1 * 1" by simp
  have b: "[0, 1023, 511, 512 :: u16] \<noteq> []" by simp
  have c: "Min (set [0, 1023, 511, 512 :: u16]) = 0" by simp
  have d: "Max (set [0, 1023, 511, 512 :: u16]) = 1023" by simp
  have e: "Min (set [0, 1023, 511, 512 :: u16]) < Max (set [0, 1023, 511, 512])"
    by (simp only: c d) simp
  have f: "normalize_frame 1 1 [0, 1023, 511, 512] = Inr [0, 1023, 511, 512]"
    using normalize_frame_idempotent [OF a b] c d by blast
  from normalize_frame_idempotent [OF a b] e obtain once twice
    where g: "normalize_frame 1 1 [0, 1023, 511, 512] = Inr once"
      "normalize_frame 1 1 once = Inr twice"
      "length once = length [0, 1023, 511, 512 :: u16]" "length twice = length once"
      "\<forall>i<length once. \<bar>uint (twice ! i) - uint (once ! i)\<bar> \<le> 1"
    by blast
  from g(3) have "3 < length once" by simp
  with g(5) have "\<bar>uint (twice ! 3) - uint (once ! 3)\<bar> \<le> 1" by blast
  with a b c d e f g(1-4) show ?thesis by blast
qed

subsection \<open>Demosaicing\<close>

text \<open>
  Claim C1. For every frame whose samples are all at most 1023 the demosaicer produces,
  for each pixel \<open>(x, y)\<close> with \<open>x < w\<close> and \<open>y < h\<close>, R = truncate(red * 255/1023),
  B = truncate(blue * 255/1023) and G = truncate(((Gr + Gb) / 2) * 255/1023), the
  division by 2 being the truncating integer division, done before the scaling, and the
  conversion to 8 bits truncating. The single-precision product never crosses an integer
  here, so the exact formula holds.
\<close>

theorem debayer_scales:
  assumes "length buffer = 4 * w * h" and "\<forall>v\<in>set buffer. v \<le> 1023"
  shows "\<exists>img. debayer w h buffer = Inr img \<and> length img = RGB_SIZE w h
    \<and> (\<forall>x<w. \<forall>y<h.
          uint (img ! RGB_LOCATION w x y RGB_R)
            = spec_scale (uint (buffer ! RG10_LOCATION w x y RG10_R))
        \<and> uint (img ! RGB_LOCATION w x y RGB_B)
            = spec_scale (uint (buffer ! RG10_LOCATION w x y (RG10_B w)))
        \<and> uint (img ! RGB_LOCATION w x y RGB_G)
            = spec_scale ((uint (buffer ! RG10_LOCATION w x y RG10_Gr)
                           + uint (buffer ! RG10_LOCATION w x y (RG10_Gb w))) div 2))"
proof -
  have ten: "v \<le> 1023" if "v \<in> set buffer" for v using assms(2) that by blast
  from debayer_10bit_total [OF assms(1) ten] obtain img
    where run: "debayer w h buffer = Inr img" by blast
  note px = debayer_pixels [OF run assms(1)]
  have "uint (img ! RGB_LOCATION w x y RGB_R)
            = spec_scale (uint (buffer ! RG10_LOCATION w x y RG10_R))
        \<and> uint (img ! RGB_LOCATION w x y RGB_B)
            = spec_scale (uint (buffer ! RG10_LOCATION w x y (RG10_B w)))
        \<and> uint (img ! RGB_LOCATION w x y RGB_G)
            = spec_scale ((uint (buffer ! RG10_LOCATION w x y RG10_Gr)
                           + uint (buffer ! RG10_LOCATION w x y (RG10_Gb w))) div 2)"
    if xy: "x < w" "y < h" for x y
  proof -
    note s = sample_in_frame [OF assms(1) xy]
    have u: "0 \<le> uint v \<and> uint v \<le> 1023" if "v \<in> set buffer" for v
      using ten [OF that] by (simp add: word_le_def)
    note p = pixels_10bit [OF assms(1) xy ten]
    have R: "img ! RGB_LOCATION w x y RGB_R
        = word_of_int (spec_scale (uint (buffer ! RG10_LOCATION w x y RG10_R)))"
      using px(2) [OF xy] p(1) by simp
    have B: "img ! RGB_LOCATION w x y RGB_B
        = word_of_int (spec_scale (uint (buffer ! RG10_LOCATION w x y (RG10_B w))))"
      using px(3) [OF xy] p(2) by simp
    have G: "img ! RGB_LOCATION w x y RGB_G
        = word_of_int (spec_scale ((uint (buffer ! RG10_LOCATION w x y (RG10_Gb w))
                + uint (buffer ! RG10_LOCATION w x y RG10_Gr)) div 2))"
      using px(4) [OF xy] p(3) by simp
    have g: "0 \<le> (uint (buffer ! RG10_LOCATION w x y (RG10_Gb w))
                + uint (buffer ! RG10_LOCATION w x y RG10_Gr)) div 2"
      "(uint (buffer ! RG10_LOCATION w x y (RG10_Gb w))
                + uint (buffer ! RG10_LOCATION w x y RG10_Gr)) div 2 \<le> 1023"
      using u [OF s(3)] u [OF s(2)] by simp_all
    show ?thesis
      unfolding R B G
      using uint_scaled [OF conjunct1 [OF u [OF s(1)]] conjunct2 [OF u [OF s(1)]]]
        uint_scaled [OF conjunct1 [OF u [OF s(4)]] conjunct2 [OF u [OF s(4)]]]
        uint_scaled [OF g]
      by (simp only: add.commute [of "uint (buffer ! RG10_LOCATION w x y RG10_Gr)"])
  qed
  with run px(1) show ?thesis by (simp add: RGB_SIZE_eq)
qed

theorem debayer_scales_witness:
  "length [1000, 200, 700, 3 :: u16] = 4 * 1 * 1
   \<and> (\<exists>img. debayer 1 1 [1000, 200, 700, 3] = Inr img \<and> length img = RGB_SIZE 1 1
     \<and> uint (img ! RGB_LOCATION 1 0 0 RGB_R)
          = spec_scale (uint ([1000, 200, 700, 3 :: u16] ! RG10_LOCATION 1 0 0 RG10_R))
     \<and> uint (img ! RGB_LOCATION 1 0 0 RGB_B)
          = spec_scale (uint ([1000, 200, 700, 3 :: u16] ! RG10_LOCATION 1 0 0 (RG10_B 1)))
     \<and> uint (img ! RGB_LOCATION 1 0 0 RGB_G)
          = spec_scale ((uint ([1000, 200, 700, 3 :: u16] ! RG10_LOCATION 1 0 0 RG10_Gr)
              + uint ([1000, 200, 700, 3 :: u16] ! RG10_LOCATION 1 0 0 (RG10_Gb 1))) div 2))"
proof -
  have a: "length [1000, 200, 700, 3 :: u16] = 4 * 1 * 1" by simp
  have b: "\<forall>v\<in>set [1000, 200, 700, 3 :: u16]. v \<le> 1023" by simp
  have c: "(0 :: nat) < 1" by simp
  from debayer_scales [OF a b] a c show ?thesis by blast
qed


text \<open>
  Claim C8. For two frames that differ only in the red sample of one block \<open>(x0, y0)\<close>,
  the demosaiced images differ at most in the R byte of the pixel \<open>(x0, y0)\<close>: the G and B
  bytes of that pixel and all three bytes of every other pixel are the same.
\<close>

theorem debayer_red_independent:
  assumes "length f = 4 * w * h" and "length f' = length f"
    and "x0 < w" and "y0 < h"
    and "\<forall>i<length f. i \<noteq> RG10_LOCATION w x0 y0 RG10_R \<longrightarrow> f' ! i = f ! i"
    and "debayer w h f = Inr a" and "debayer w h f' = Inr a'"
  shows "length a' = length a
    \<and> a' ! RGB_LOCATION w x0 y0 RGB_G = a ! RGB_LOCATION w x0 y0 RGB_G
    \<and> a' ! RGB_LOCATION w x0 y0 RGB_B = a ! RGB_LOCATION w x0 y0 RGB_B
    \<and> (\<forall>x<w. \<forall>y<h. (x, y) \<noteq> (x0, y0) \<longrightarrow>
          a' ! RGB_LOCATION w x y RGB_R = a ! RGB_LOCATION w x y RGB_R
          \<and> a' ! RGB_LOCATION w x y RGB_G = a ! RGB_LOCATION w x y RGB_G
          \<and> a' ! RGB_LOCATION w x y RGB_B = a ! RGB_LOCATION w x y RGB_B)
    \<and> (\<forall>i<length a. i \<noteq> RGB_LOCATION w x0 y0 RGB_R \<longrightarrow> a' ! i = a ! i)"
proof -
  have lf': "length f' = 4 * w * h" using assms(1,2) by simp
  note pa = debayer_pixels [OF assms(6) assms(1)]
  note pa' = debayer_pixels [OF assms(7) lf']
  have same: "f' ! i = f ! i" if "i < length f" "i \<noteq> RG10_LOCATION w x0 y0 RG10_R" for i
    using assms(5) that by blast
  have GB: "a' ! RGB_LOCATION w x y RGB_G = a ! RGB_LOCATION w x y RGB_G"
    "a' ! RGB_LOCATION w x y RGB_B = a ! RGB_LOCATION w x y RGB_B" if xy: "x < w" "y < h" for x y
  proof -
    note e = pixels_after_red_change [OF assms(2) same assms(1) xy assms(3)]
    from pa(4) [OF xy] pa'(4) [OF xy] e(2)
    show "a' ! RGB_LOCATION w x y RGB_G = a ! RGB_LOCATION w x y RGB_G" by simp
    from pa(3) [OF xy] pa'(3) [OF xy] e(1)
    show "a' ! RGB_LOCATION w x y RGB_B = a ! RGB_LOCATION w x y RGB_B" by simp
  qed
  have R: "a' ! RGB_LOCATION w x y RGB_R = a ! RGB_LOCATION w x y RGB_R"
    if xy: "x < w" "y < h" and ne: "(x, y) \<noteq> (x0, y0)" for x y
  proof -
    note e = pixels_after_red_change(3) [OF assms(2) same assms(1) xy assms(3) ne]
    from pa(2) [OF xy] pa'(2) [OF xy] e show ?thesis by simp
  qed
  have idx: "a' ! i = a ! i" if i: "i < length a" and ne: "i \<noteq> RGB_LOCATION w x0 y0 RGB_R" for i
  proof -
    from i pa(1) have "i < 3 * w * h" by simp
    then obtain x y c where xy: "x < w" "y < h" and c: "c < 3" and ic: "i = 3 * (y * w + x) + c"
      by (rule rgb_index_cases)
    from c consider "c = 0" | "c = 1" | "c = 2" by linarith
    then show ?thesis
    proof cases
      case 1
      with GB(2) [OF xy] show ?thesis by (simp add: ic RGB_LOCATION_simps)
    next
      case 2
      with GB(1) [OF xy] show ?thesis by (simp add: ic RGB_LOCATION_simps)
    next
      case 3
      with ne have "(x, y) \<noteq> (x0, y0)" by (auto simp add: ic RGB_LOCATION_simps)
      from R [OF xy this] 3 show ?thesis by (simp add: ic RGB_LOCATION_simps)
    qed
  qed
  from pa(1) pa'(1) GB [OF assms(3,4)] GB R idx show ?thesis by simp
qed

theorem debayer_red_independent_witness:
  "length [1023, 0, 1023, 0 :: u16] = 4 * 1 * 1
   \<and> length [5, 0, 1023, 0 :: u16] = length [1023, 0, 1023, 0 :: u16]
   \<and> (0 :: nat) < 1
   \<and> debayer 1 1 [1023, 0, 1023, 0] = Inr [0, 127, 255]
   \<and> debayer 1 1 [5, 0, 1023, 0] = Inr [0, 127, 1]
   \<and> length [0, 127, 1 :: u8] = length [0, 127, 255 :: u8]
   \<and> [0, 127, 1 :: u8] ! RGB_LOCATION 1 0 0 RGB_G = [0, 127, 255 :: u8] ! RGB_LOCATION 1 0 0 RGB_G
   \<and> [0, 127, 1 :: u8] ! RGB_LOCATION 1 0 0 RGB_B = [0, 127, 255 :: u8] ! RGB_LOCATION 1 0 0 RGB_B"
proof -
  have a: "length [1023, 0, 1023, 0 :: u16] = 4 * 1 * 1" by simp
  have b: "length [5, 0, 1023, 0 :: u16] = length [1023, 0, 1023, 0 :: u16]" by simp
  have c: "(0 :: nat) < 1" by simp
  have d: "\<forall>i<length [1023, 0, 1023, 0 :: u16]. i \<noteq> RG10_LOCATION 1 0 0 RG10_R
         \<longrightarrow> [5, 0, 1023, 0 :: u16] ! i = [1023, 0, 1023, 0 :: u16] ! i"
    by (simp add: RG10_LOCATION_simps nth_Cons')
  have e: "debayer 1 1 [1023, 0, 1023, 0] = Inr [0, 127, 255]" by code_simp
  have f: "debayer 1 1 [5, 0, 1023, 0] = Inr [0, 127, 1]" by code_simp
  from debayer_red_independent [OF a b c c d e f] a b c e f show ?thesis by blast
qed

subsection \<open>The buffer indices\<close>

text \<open>
  Claim C10. With the configured geometry, for all \<open>x < 1920\<close> and \<open>y < 1080\<close> the four
  input indices \<open>RG10_LOCATION x y c\<close>, \<open>c\<close> one of 0, 1, 2 * WIDTH, 2 * WIDTH + 1, lie
  below \<open>WIDTH * HEIGHT * 4\<close>, and each of the \<open>WIDTH * HEIGHT * 4\<close> sample slots is
  \<open>RG10_LOCATION x y c\<close> for exactly one \<open>(x, y, c)\<close>; the three output indices
  \<open>RGB_LOCATION x y c\<close>, \<open>c\<close> one of 0, 1, 2, lie below \<open>WIDTH * HEIGHT * 3\<close> and are
  pairwise distinct. Accordingly neither the scan for the extrema, nor the normalisation,
  nor the demosaicing accesses a buffer out of bounds.
\<close>

theorem locations_in_bounds:
  "colors WIDTH = {0, 1, 2 * WIDTH, 2 * WIDTH + 1}
   \<and> {RGB_R, RGB_G, RGB_B} = {0, 1, 2}
   \<and> (\<forall>x<WIDTH. \<forall>y<HEIGHT. \<forall>c\<in>colors WIDTH.
         RG10_LOCATION WIDTH x y c < WIDTH * HEIGHT * 4)
   \<and> (\<forall>i<WIDTH * HEIGHT * 4.
         \<exists>!(x, y, c). x < WIDTH \<and> y < HEIGHT \<and> c \<in> colors WIDTH
                      \<and> RG10_LOCATION WIDTH x y c = i)
   \<and> (\<forall>x<WIDTH. \<forall>y<HEIGHT. \<forall>c\<in>{RGB_R, RGB_G, RGB_B}.
         RGB_LOCATION WIDTH x y c < WIDTH * HEIGHT * 3)
   \<and> (\<forall>x<WIDTH. \<forall>y<HEIGHT. \<forall>c\<in>{RGB_R, RGB_G, RGB_B}.
       \<forall>x'<WIDTH. \<forall>y'<HEIGHT. \<forall>c'\<in>{RGB_R, RGB_G, RGB_B}.
         RGB_LOCATION WIDTH x y c = RGB_LOCATION WIDTH x' y' c'
           \<longrightarrow> x = x' \<and> y = y' \<and> c = c')
   \<and> (\<forall>buffer. length buffer = WIDTH * HEIGHT * 4 \<longrightarrow>
         min_max_frame WIDTH HEIGHT buffer \<noteq> Inl OutOfBounds
         \<and> normalize_frame WIDTH HEIGHT buffer \<noteq> Inl OutOfBounds
         \<and> debayer WIDTH HEIGHT buffer \<noteq> Inl OutOfBounds)"
proof (intro conjI allI impI ballI)
  show "colors WIDTH = {0, 1, 2 * WIDTH, 2 * WIDTH + 1}" by (rule colors_simps)
  show c3: "{RGB_R, RGB_G, RGB_B} = {0, 1, 2}"
    by (auto simp add: RGB_R_def RGB_G_def RGB_B_def)
next
  fix x y c
  assume "x < WIDTH" "y < HEIGHT" "c \<in> colors WIDTH"
  then have "RG10_LOCATION WIDTH x y c < 4 * WIDTH * HEIGHT" by (rule RG10_LOCATION_bound)
  then show "RG10_LOCATION WIDTH x y c < WIDTH * HEIGHT * 4" by (simp add: ac_simps)
next
  fix i
  assume "i < WIDTH * HEIGHT * 4"
  then have "i < 4 * WIDTH * HEIGHT" by (simp add: ac_simps)
  from RG10_LOCATION_surj [OF this] obtain x y c
    where p: "x < WIDTH" "y < HEIGHT" "c \<in> colors WIDTH" "RG10_LOCATION WIDTH x y c = i"
    by blast
  show "\<exists>!(x, y, c). x < WIDTH \<and> y < HEIGHT \<and> c \<in> colors WIDTH
                      \<and> RG10_LOCATION WIDTH x y c = i"
  proof (rule ex1I [of _ "(x, y, c)"])
    show "case (x, y, c) of (x, y, c) \<Rightarrow> x < WIDTH \<and> y < HEIGHT \<and> c \<in> colors WIDTH
                      \<and> RG10_LOCATION WIDTH x y c = i"
      using p by simp
  next
    fix t
    assume t: "case t of (x, y, c) \<Rightarrow> x < WIDTH \<and> y < HEIGHT \<and> c \<in> colors WIDTH
                      \<and> RG10_LOCATION WIDTH x y c = i"
    obtain x' y' c' where t': "t = (x', y', c')" by (cases t)
    from t have q: "x' < WIDTH" "c' \<in> colors WIDTH" "RG10_LOCATION WIDTH x' y' c' = i"
      by (simp_all add: t')
    have "RG10_LOCATION WIDTH x' y' c' = RG10_LOCATION WIDTH x y c"
      using q(3) p(4) by simp
    from RG10_LOCATION_inj [OF q(1) p(1) q(2) p(3) this]
    show "t = (x, y, c)" by (simp add: t')
  qed
next
  fix x y c
  assume "x < WIDTH" "y < HEIGHT" "c \<in> {RGB_R, RGB_G, RGB_B}"
  then have "x < WIDTH" "y < HEIGHT" "c < 3"
    by (auto simp add: RGB_R_def RGB_G_def RGB_B_def)
  then have "RGB_LOCATION WIDTH x y c < 3 * WIDTH * HEIGHT" by (rule RGB_LOCATION_bound)
  then show "RGB_LOCATION WIDTH x y c < WIDTH * HEIGHT * 3" by (simp add: ac_simps)
next
  fix x y c x' y' c'
  assume "x < WIDTH" "x' < WIDTH" "c \<in> {RGB_R, RGB_G, RGB_B}" "c' \<in> {RGB_R, RGB_G, RGB_B}"
    and e: "RGB_LOCATION WIDTH x y c = RGB_LOCATION WIDTH x' y' c'"
  then have "x < WIDTH" "x' < WIDTH" "c < 3" "c' < 3"
    by (auto simp add: RGB_R_def RGB_G_def RGB_B_def)
  from RGB_LOCATION_inj [OF this e] show "x = x'" "y = y'" "c = c'" by simp_all
next
  fix buffer :: "u16 list"
  assume "length buffer = WIDTH * HEIGHT * 4"
  then have len: "length buffer = 4 * WIDTH * HEIGHT" by (simp add: ac_simps)
  from min_max_frame_defined [OF len]
  show "min_max_frame WIDTH HEIGHT buffer \<noteq> Inl OutOfBounds" by auto
  from normalize_frame_cases [OF len]
  show "normalize_frame WIDTH HEIGHT buffer \<noteq> Inl OutOfBounds" by auto
  from debayer_cases [OF len]
  show "debayer WIDTH HEIGHT buffer \<noteq> Inl OutOfBounds" by auto
qed

theorem locations_in_bounds_witness:
  "(1919 :: nat) < WIDTH \<and> (1079 :: nat) < HEIGHT \<and> RG10_B WIDTH \<in> colors WIDTH
   \<and> RG10_LOCATION WIDTH 1919 1079 (RG10_B WIDTH) = 8294399
   \<and> RG10_LOCATION WIDTH 1919 1079 (RG10_B WIDTH) < WIDTH * HEIGHT * 4
   \<and> RGB_R \<in> {RGB_R, RGB_G, RGB_B}
   \<and> RGB_LOCATION WIDTH 1919 1079 RGB_R = 6220799
   \<and> RGB_LOCATION WIDTH 1919 1079 RGB_R < WIDTH * HEIGHT * 3
   \<and> length (replicate (WIDTH * HEIGHT * 4) (0 :: u16)) = WIDTH * HEIGHT * 4
   \<and> debayer WIDTH HEIGHT (replicate (WIDTH * HEIGHT * 4) 0) \<noteq> Inl OutOfBounds"
proof -
  have a: "(1919 :: nat) < WIDTH" "(1079 :: nat) < HEIGHT" by (simp_all add: WIDTH_def HEIGHT_def)
  have b: "RG10_B WIDTH \<in> colors WIDTH" by (simp add: colors_def)
  have c: "RGB_R \<in> {RGB_R, RGB_G, RGB_B}" by simp
  have d: "length (replicate (WIDTH * HEIGHT * 4) (0 :: u16)) = WIDTH * HEIGHT * 4" by simp
  have e: "RG10_LOCATION WIDTH 1919 1079 (RG10_B WIDTH) = 8294399"
    by (simp add: RG10_LOCATION_simps WIDTH_def)
  have f: "RGB_LOCATION WIDTH 1919 1079 RGB_R = 6220799"
    by (simp add: RGB_LOCATION_simps WIDTH_def)
  note t3 = locations_in_bounds [THEN conjunct2, THEN conjunct2, THEN conjunct1]
  note t5 = locations_in_bounds [THEN conjunct2, THEN conjunct2, THEN conjunct2,
      THEN conjunct2, THEN conjunct1]
  note t7 = locations_in_bounds [THEN conjunct2, THEN conjunct2, THEN conjunct2,
      THEN conjunct2, THEN conjunct2, THEN conjunct2]
  from t3 a b have g: "RG10_LOCATION WIDTH 1919 1079 (RG10_B WIDTH) < WIDTH * HEIGHT * 4"
    by blast
  from t5 a c have h: "RGB_LOCATION WIDTH 1919 1079 RGB_R < WIDTH * HEIGHT * 3"
    by blast
  from t7 d have i: "debayer WIDTH HEIGHT (replicate (WIDTH * HEIGHT * 4) 0) \<noteq> Inl OutOfBounds"
    by blast
  from a b c d e f g h i show ?thesis by (intro conjI)
qed

subsection \<open>The output file\<close>

text \<open>
  Claim C4. For an image of the configured width and height (any width and height below
  65536) the sink writes exactly an 18-byte header, in which byte 2 is 2, bytes 12-13
  are the width and bytes 14-15 the height as little-endian 16-bit numbers, byte 16 is
  24, byte 17 is 32 and every other byte is 0, followed immediately by the
  \<open>w * h\<close> pixels of 3 bytes each, blue, green, red, row-major, and nothing else; reading
  the header back gives the width and the height.
\<close>

theorem write_tga_layout:
  assumes "w < 65536" and "h < 65536" and "length img = RGB_SIZE w h" and "writable s name"
  shows "\<exists>file. write_tga w h name img s = Return () (s\<lparr>written := (written s)(name \<mapsto> file)\<rparr>)
    \<and> length file = 18 + w * h * 3
    \<and> take 18 file = [0, 0, 2, 0, 0, 0, 0, 0, 0, 0, 0, 0,
         word_of_nat (w mod 256), word_of_nat (w div 256),
         word_of_nat (h mod 256), word_of_nat (h div 256), 24, 32]
    \<and> drop 18 file = img
    \<and> tga_width (take 18 file) = w \<and> tga_height (take 18 file) = h
    \<and> (\<forall>x<w. \<forall>y<h.
          file ! (18 + 3 * (y * w + x)) = img ! RGB_LOCATION w x y RGB_B
        \<and> file ! (18 + 3 * (y * w + x) + 1) = img ! RGB_LOCATION w x y RGB_G
        \<and> file ! (18 + 3 * (y * w + x) + 2) = img ! RGB_LOCATION w x y RGB_R)"
proof -
  let ?hdr = "tga_header w h"
  let ?file = "?hdr @ img"
  have lh: "length ?hdr = 18" by (simp add: header_bytes)
  have m: "w div 256 mod 256 = w div 256" "h div 256 mod 256 = h div 256"
    using assms(1,2) by simp_all
  have wr: "write_tga w h name img s = Return () (s\<lparr>written := (written s)(name \<mapsto> ?file)\<rparr>)"
    using assms(3,4) by (simp add: write_tga_def)
  have t: "take 18 ?file = ?hdr" "drop 18 ?file = img" using lh by simp_all
  have g: "tga_width ?hdr = w" "tga_height ?hdr = h"
    using header_geometry [OF assms(1,2), of "[]"] by simp_all
  have px: "?file ! (18 + j) = img ! j" for j
    using lh by (simp add: nth_append)
  have "length ?file = 18 + w * h * 3" using lh assms(3) by (simp add: RGB_SIZE_eq ac_simps)
  moreover have "take 18 ?file = [0, 0, 2, 0, 0, 0, 0, 0, 0, 0, 0, 0,
         word_of_nat (w mod 256), word_of_nat (w div 256),
         word_of_nat (h mod 256), word_of_nat (h div 256), 24, 32]"
    unfolding t by (simp only: header_bytes m)
  moreover have "tga_width (take 18 ?file) = w" "tga_height (take 18 ?file) = h"
    unfolding t by (rule g)+
  moreover have "\<forall>x<w. \<forall>y<h.
          ?file ! (18 + 3 * (y * w + x)) = img ! RGB_LOCATION w x y RGB_B
        \<and> ?file ! (18 + 3 * (y * w + x) + 1) = img ! RGB_LOCATION w x y RGB_G
        \<and> ?file ! (18 + 3 * (y * w + x) + 2) = img ! RGB_LOCATION w x y RGB_R"
    unfolding RGB_LOCATION_simps add.assoc px by simp
  ultimately show ?thesis using wr t(2) by blast
qed

theorem write_tga_layout_witness:
  "(1 :: nat) < 65536 \<and> length [0, 127, 255 :: u8] = RGB_SIZE 1 1
   \<and> writable \<lparr>readable = (\<lambda>n. None), writable = (\<lambda>n. True), written = (\<lambda>n. None),
                 stderr = []\<rparr> ''frame.tga''
   \<and> (\<exists>file. write_tga 1 1 ''frame.tga'' [0, 127, 255]
          \<lparr>readable = (\<lambda>n. None), writable = (\<lambda>n. True), written = (\<lambda>n. None), stderr = []\<rparr>
        = Return () (\<lparr>readable = (\<lambda>n. None), writable = (\<lambda>n. True), written = (\<lambda>n. None),
                      stderr = []\<rparr>\<lparr>written := (\<lambda>n. None)(''frame.tga'' \<mapsto> file)\<rparr>)
      \<and> length file = 18 + 1 * 1 * 3 \<and> drop 18 file = [0, 127, 255]
      \<and> tga_width (take 18 file) = 1 \<and> tga_height (take 18 file) = 1)"
proof -
  let ?s = "\<lparr>readable = (\<lambda>n. None), writable = (\<lambda>n. True), written = (\<lambda>n. None),
            stderr = []\<rparr>"
  have a: "(1 :: nat) < 65536" by simp
  have b: "length [0, 127, 255 :: u8] = RGB_SIZE 1 1" by (simp add: RGB_SIZE_eq)
  have c: "writable ?s ''frame.tga''" by simp
  from write_tga_layout [OF a a b c] obtain fl
    where fl: "write_tga 1 1 ''frame.tga'' [0, 127, 255] ?s
        = Return () (?s\<lparr>written := (written ?s)(''frame.tga'' \<mapsto> fl)\<rparr>)"
      "length fl = 18 + 1 * 1 * 3" "drop 18 fl = [0, 127, 255]"
      "tga_width (take 18 fl) = 1" "tga_height (take 18 fl) = 1"
    by blast
  have "written ?s = (\<lambda>n. None)" by simp
  with fl(1) have "write_tga 1 1 ''frame.tga'' [0, 127, 255] ?s
        = Return () (?s\<lparr>written := (\<lambda>n. None)(''frame.tga'' \<mapsto> fl)\<rparr>)"
    by (simp only:)
  with a b c fl(2-5) show ?thesis by (intro conjI exI [of _ fl])
qed

subsection \<open>The whole program\<close>

lemma main_steps:
  assumes rd: "readable s input = Some bytes"
    and nf: "normalize_frame w h (decode_u16 (take (RG10_SIZE w h) bytes @ drop (length bytes) heap))
               = Inr buffer"
    and db: "debayer w h buffer = Inr img"
  shows "main w h heap input output s
    = bind_proc (write_tga w h output img s) (\<lambda>_ s. Return 0 s)"
  by (simp add: main_def read_file_def rd nf db bind_proc_def lift_err_def)

lemma main_image_length:
  assumes "length heap = RG10_SIZE w h"
    and nf: "normalize_frame w h (decode_u16 (take (RG10_SIZE w h) bytes @ drop (length bytes) heap))
               = Inr buffer"
    and db: "debayer w h buffer = Inr img"
  shows "length img = RGB_SIZE w h"
proof -
  have "length buffer = 4 * w * h"
    using normalize_frame_length [OF nf read_buffer_length [OF assms(1)]]
      read_buffer_length [OF assms(1)] by simp
  from debayer_pixels(1) [OF db this] show ?thesis by (simp add: RGB_SIZE_eq)
qed

text \<open>
  Claim C9. The process exits with status 0 on success. If the input cannot be opened
  for reading, or the output cannot be opened for writing, it prints a diagnostic on the
  error stream and exits at once with the status -1: nothing else of the environment
  changes, in particular no file is written.
\<close>

theorem main_exit_status:
  assumes "length heap = RG10_SIZE w h"
  shows "(readable s input = None \<longrightarrow>
            main w h heap input output s
              = Exit (- 1) (s\<lparr>stderr := stderr s @ ''Unable to open file '' @ input
                                           @ '' for reading.'' @ [CHR 0x0A]\<rparr>))
    \<and> (\<forall>bytes buffer img.
          readable s input = Some bytes
          \<and> normalize_frame w h
               (decode_u16 (take (RG10_SIZE w h) bytes @ drop (length bytes) heap)) = Inr buffer
          \<and> debayer w h buffer = Inr img \<longrightarrow>
            (\<not> writable s output \<longrightarrow>
               main w h heap input output s
                 = Exit (- 1) (s\<lparr>stderr := stderr s @ ''Unable to open file '' @ output
                                              @ '' for writing.'' @ [CHR 0x0A]\<rparr>))
            \<and> (writable s output \<longrightarrow>
               main w h heap input output s
                 = Return 0 (s\<lparr>written := (written s)(output \<mapsto> tga_header w h @ img)\<rparr>)))"
proof (intro conjI allI impI)
  assume "readable s input = None"
  then show "main w h heap input output s
              = Exit (- 1) (s\<lparr>stderr := stderr s @ ''Unable to open file '' @ input
                                           @ '' for reading.'' @ [CHR 0x0A]\<rparr>)"
    by (simp add: main_def read_file_def bind_proc_def)
next
  fix bytes buffer img
  assume a: "readable s input = Some bytes
          \<and> normalize_frame w h
               (decode_u16 (take (RG10_SIZE w h) bytes @ drop (length bytes) heap)) = Inr buffer
          \<and> debayer w h buffer = Inr img"
  then have a: "readable s input = Some bytes"
    "normalize_frame w h
       (decode_u16 (take (RG10_SIZE w h) bytes @ drop (length bytes) heap)) = Inr buffer"
    "debayer w h buffer = Inr img"
    by simp_all
  have m: "main w h heap input output s
      = bind_proc (write_tga w h output img s) (\<lambda>_ s. Return 0 s)"
    using a by (rule main_steps)
  {
    assume "\<not> writable s output"
    then show "main w h heap input output s
                 = Exit (- 1) (s\<lparr>stderr := stderr s @ ''Unable to open file '' @ output
                                              @ '' for writing.'' @ [CHR 0x0A]\<rparr>)"
      by (simp add: m write_tga_def bind_proc_def)
  }
  {
    assume w: "writable s output"
    have "length img = RGB_SIZE w h"
      using assms a(2,3) by (rule main_image_length)
    with w show "main w h heap input output s
                 = Return 0 (s\<lparr>written := (written s)(output \<mapsto> tga_header w h @ img)\<rparr>)"
      by (simp add: m write_tga_def bind_proc_def)
  }
qed

theorem main_exit_status_witness:
  "length (replicate 8 (0 :: u8)) = RG10_SIZE 1 1
   \<and> main 1 1 (replicate 8 0) ''in.raw'' ''out.tga''
        \<lparr>readable = (\<lambda>n. None), writable = (\<lambda>n. True), written = (\<lambda>n. None), stderr = []\<rparr>
      = Exit (- 1)
        \<lparr>readable = (\<lambda>n. None), writable = (\<lambda>n. True), written = (\<lambda>n. None),
         stderr = ''Unable to open file in.raw for reading.'' @ [CHR 0x0A]\<rparr>
   \<and> main 1 1 (replicate 8 0) ''in.raw'' ''out.tga''
        \<lparr>readable = (\<lambda>n. Some [255, 3, 0, 0, 255, 3, 0, 0]), writable = (\<lambda>n. False),
         written = (\<lambda>n. None), stderr = []\<rparr>
      = Exit (- 1)
        \<lparr>readable = (\<lambda>n. Some [255, 3, 0, 0, 255, 3, 0, 0]), writable = (\<lambda>n. False),
         written = (\<lambda>n. None),
         stderr = ''Unable to open file out.tga for writing.'' @ [CHR 0x0A]\<rparr>
   \<and> main 1 1 (replicate 8 0) ''in.raw'' ''out.tga''
        \<lparr>readable = (\<lambda>n. Some [255, 3, 0, 0, 255, 3, 0, 0]), writable = (\<lambda>n. True),
         written = (\<lambda>n. None), stderr = []\<rparr>
      = Return 0
        \<lparr>readable = (\<lambda>n. Some [255, 3, 0, 0, 255, 3, 0, 0]), writable = (\<lambda>n. True),
         written = (\<lambda>n. None)(''out.tga'' \<mapsto> tga_header 1 1 @ [0, 127, 255]), stderr = []\<rparr>"
proof -
  let ?bytes = "[255, 3, 0, 0, 255, 3, 0, 0] :: u8 list"
  let ?s1 = "\<lparr>readable = (\<lambda>n. None), writable = (\<lambda>n. True), written = (\<lambda>n. None),
              stderr = []\<rparr>"
  let ?s2 = "\<lparr>readable = (\<lambda>n. Some ?bytes), writable = (\<lambda>n. False),
              written = (\<lambda>n. None), stderr = []\<rparr>"
  let ?s3 = "\<lparr>readable = (\<lambda>n. Some ?bytes), writable = (\<lambda>n. True),
              written = (\<lambda>n. None), stderr = []\<rparr>"
  have len: "length (replicate 8 (0 :: u8)) = RG10_SIZE 1 1" by (simp add: RG10_SIZE_eq)
  have nf: "normalize_frame 1 1
      (decode_u16 (take (RG10_SIZE 1 1) ?bytes @ drop (length ?bytes) (replicate 8 0)))
      = Inr [1023, 0, 1023, 0]"
    by code_simp
  have db: "debayer 1 1 [1023, 0, 1023, 0] = Inr [0, 127, 255]" by code_simp
  note t = main_exit_status [OF len, of _ "''in.raw''" "''out.tga''"]
  have 1: "main 1 1 (replicate 8 0) ''in.raw'' ''out.tga'' ?s1
      = Exit (- 1) (?s1\<lparr>stderr := stderr ?s1 @ ''Unable to open file '' @ ''in.raw''
                                   @ '' for reading.'' @ [CHR 0x0A]\<rparr>)"
    using t [of ?s1, THEN conjunct1] by simp
  have h2: "readable ?s2 ''in.raw'' = Some ?bytes
          \<and> normalize_frame 1 1
               (decode_u16 (take (RG10_SIZE 1 1) ?bytes @ drop (length ?bytes) (replicate 8 0)))
              = Inr [1023, 0, 1023, 0]
          \<and> debayer 1 1 [1023, 0, 1023, 0] = Inr [0, 127, 255]"
    using nf db by simp
  have h3: "readable ?s3 ''in.raw'' = Some ?bytes
          \<and> normalize_frame 1 1
               (decode_u16 (take (RG10_SIZE 1 1) ?bytes @ drop (length ?bytes) (replicate 8 0)))
              = Inr [1023, 0, 1023, 0]
          \<and> debayer 1 1 [1023, 0, 1023, 0] = Inr [0, 127, 255]"
    using nf db by simp
  have 2: "main 1 1 (replicate 8 0) ''in.raw'' ''out.tga'' ?s2
      = Exit (- 1) (?s2\<lparr>stderr := stderr ?s2 @ ''Unable to open file '' @ ''out.tga''
                                   @ '' for writing.'' @ [CHR 0x0A]\<rparr>)"
    using t [of ?s2, THEN conjunct2, rule_format, OF h2, THEN conjunct1] by simp
  have 3: "main 1 1 (replicate 8 0) ''in.raw'' ''out.tga'' ?s3
      = Return 0 (?s3\<lparr>written := (written ?s3)(''out.tga'' \<mapsto> tga_header 1 1 @ [0, 127, 255])\<rparr>)"
    using t [of ?s3, THEN conjunct2, rule_format, OF h3, THEN conjunct2] by simp
  from len 1 2 3 show ?thesis by simp
qed

text \<open>
  Claim C5. With the geometry of one block (\<open>w = h = 1\<close>) and the frame R = 1023, Gr = 0,
  Gb = 1023, B = 0, normalisation changes nothing, demosaicing gives the one pixel
  R = 255, G = 127, B = 0, and the file written has a header with width 1 and height 1
  followed by the three bytes 0, 127, 255 (blue, green, red).
\<close>

theorem pipeline_one_block:
  assumes "length heap = RG10_SIZE 1 1"
    and "readable s input = Some [255, 3, 0, 0, 255, 3, 0, 0]" and "writable s output"
  shows "decode_u16 [255, 3, 0, 0, 255, 3, 0, 0] = [1023, 0, 1023, 0]
    \<and> [1023, 0, 1023, 0 :: u16] ! RG10_LOCATION 1 0 0 RG10_R = 1023
    \<and> [1023, 0, 1023, 0 :: u16] ! RG10_LOCATION 1 0 0 RG10_Gr = 0
    \<and> [1023, 0, 1023, 0 :: u16] ! RG10_LOCATION 1 0 0 (RG10_Gb 1) = 1023
    \<and> [1023, 0, 1023, 0 :: u16] ! RG10_LOCATION 1 0 0 (RG10_B 1) = 0
    \<and> normalize_frame 1 1 [1023, 0, 1023, 0] = Inr [1023, 0, 1023, 0]
    \<and> debayer 1 1 [1023, 0, 1023, 0] = Inr [0, 127, 255]
    \<and> [0, 127, 255 :: u8] ! RGB_LOCATION 1 0 0 RGB_R = 255
    \<and> [0, 127, 255 :: u8] ! RGB_LOCATION 1 0 0 RGB_G = 127
    \<and> [0, 127, 255 :: u8] ! RGB_LOCATION 1 0 0 RGB_B = 0
    \<and> main 1 1 heap input output s
        = Return 0 (s\<lparr>written := (written s)(output \<mapsto>
            [0, 0, 2, 0, 0, 0, 0, 0, 0, 0, 0, 0, 1, 0, 1, 0, 24, 32, 0, 127, 255])\<rparr>)
    \<and> tga_width [0, 0, 2, 0, 0, 0, 0, 0, 0, 0, 0, 0, 1, 0, 1, 0, 24, 32, 0, 127, 255] = 1
    \<and> tga_height [0, 0, 2, 0, 0, 0, 0, 0, 0, 0, 0, 0, 1, 0, 1, 0, 24, 32, 0, 127, 255] = 1
    \<and> drop 18 [0, 0, 2, 0, 0, 0, 0, 0, 0, 0, 0, 0, 1, 0, 1, 0, 24, 32, 0, 127, 255 :: u8]
        = [0, 127, 255]"
proof -
  have dec: "decode_u16 [255, 3, 0, 0, 255, 3, 0, 0] = [1023, 0, 1023, 0]" by code_simp
  have nf: "normalize_frame 1 1 [1023, 0, 1023, 0] = Inr [1023, 0, 1023, 0]" by code_simp
  have db: "debayer 1 1 [1023, 0, 1023, 0] = Inr [0, 127, 255]" by code_simp
  have hd: "tga_header 1 1 = [0, 0, 2, 0, 0, 0, 0, 0, 0, 0, 0, 0, 1, 0, 1, 0, 24, 32]"
    by code_simp
  have "drop 8 heap = []" using assms(1) by (simp add: RG10_SIZE_eq)
  then have buf: "decode_u16 (take (RG10_SIZE 1 1) [255, 3, 0, 0, 255, 3, 0, 0]
      @ drop (length [255, 3, 0, 0, 255, 3, 0, 0 :: u8]) heap) = [1023, 0, 1023, 0]"
    by (simp add: RG10_SIZE_eq dec)
  have "main 1 1 heap input output s
      = bind_proc (write_tga 1 1 output [0, 127, 255] s) (\<lambda>_ s. Return 0 s)"
  proof (rule main_steps [OF assms(2)])
    show "normalize_frame 1 1 (decode_u16 (take (RG10_SIZE 1 1) [255, 3, 0, 0, 255, 3, 0, 0]
        @ drop (length [255, 3, 0, 0, 255, 3, 0, 0 :: u8]) heap)) = Inr [1023, 0, 1023, 0]"
      by (simp only: buf nf)
    show "debayer 1 1 [1023, 0, 1023, 0] = Inr [0, 127, 255]" by (rule db)
  qed
  also have "\<dots> = Return 0 (s\<lparr>written := (written s)(output \<mapsto>
            [0, 0, 2, 0, 0, 0, 0, 0, 0, 0, 0, 0, 1, 0, 1, 0, 24, 32, 0, 127, 255])\<rparr>)"
    using assms(3) by (simp add: write_tga_def bind_proc_def RGB_SIZE_eq hd [unfolded One_nat_def])
  finally have m: "main 1 1 heap input output s
        = Return 0 (s\<lparr>written := (written s)(output \<mapsto>
            [0, 0, 2, 0, 0, 0, 0, 0, 0, 0, 0, 0, 1, 0, 1, 0, 24, 32, 0, 127, 255])\<rparr>)" .
  have idx: "[1023, 0, 1023, 0 :: u16] ! RG10_LOCATION 1 0 0 RG10_R = 1023"
    "[1023, 0, 1023, 0 :: u16] ! RG10_LOCATION 1 0 0 RG10_Gr = 0"
    "[1023, 0, 1023, 0 :: u16] ! RG10_LOCATION 1 0 0 (RG10_Gb 1) = 1023"
    "[1023, 0, 1023, 0 :: u16] ! RG10_LOCATION 1 0 0 (RG10_B 1) = 0"
    "[0, 127, 255 :: u8] ! RGB_LOCATION 1 0 0 RGB_R = 255"
    "[0, 127, 255 :: u8] ! RGB_LOCATION 1 0 0 RGB_G = 127"
    "[0, 127, 255 :: u8] ! RGB_LOCATION 1 0 0 RGB_B = 0"
    by (simp_all add: RG10_LOCATION_simps RGB_LOCATION_simps)
  have g: "tga_width [0, 0, 2, 0, 0, 0, 0, 0, 0, 0, 0, 0, 1, 0, 1, 0, 24, 32, 0, 127, 255] = 1"
    "tga_height [0, 0, 2, 0, 0, 0, 0, 0, 0, 0, 0, 0, 1, 0, 1, 0, 24, 32, 0, 127, 255] = 1"
    by (simp_all add: tga_width_def tga_height_def)
  from dec idx nf db m g show ?thesis by simp
qed

theorem pipeline_one_block_witness:
  "length (replicate 8 (170 :: u8)) = RG10_SIZE 1 1
   \<and> readable \<lparr>readable = (\<lambda>n. Some [255, 3, 0, 0, 255, 3, 0, 0]), writable = (\<lambda>n. True),
                 written = (\<lambda>n. None), stderr = []\<rparr> ''frame.raw''
        = Some [255, 3, 0, 0, 255, 3, 0, 0]
   \<and> writable \<lparr>readable = (\<lambda>n. Some [255, 3, 0, 0, 255, 3, 0, 0]), writable = (\<lambda>n. True),
                 written = (\<lambda>n. None), stderr = []\<rparr> ''frame.tga''
   \<and> main 1 1 (replicate 8 170) ''frame.raw'' ''frame.tga''
        \<lparr>readable = (\<lambda>n. Some [255, 3, 0, 0, 255, 3, 0, 0]), writable = (\<lambda>n. True),
         written = (\<lambda>n. None), stderr = []\<rparr>
      = Return 0
        \<lparr>readable = (\<lambda>n. Some [255, 3, 0, 0, 255, 3, 0, 0]), writable = (\<lambda>n. True),
         written = (\<lambda>n. None)(''frame.tga'' \<mapsto>
            [0, 0, 2, 0, 0, 0, 0, 0, 0, 0, 0, 0, 1, 0, 1, 0, 24, 32, 0, 127, 255]),
         stderr = []\<rparr>"
proof -
  let ?s = "\<lparr>readable = (\<lambda>n. Some [255, 3, 0, 0, 255, 3, 0, 0 :: u8]), writable = (\<lambda>n. True),
             written = (\<lambda>n. None), stderr = []\<rparr>"
  have a: "length (replicate 8 (170 :: u8)) = RG10_SIZE 1 1" by (simp add: RG10_SIZE_eq)
  have b: "readable ?s ''frame.raw'' = Some [255, 3, 0, 0, 255, 3, 0, 0]" by simp
  have c: "writable ?s ''frame.tga''" by simp
  have "main 1 1 (replicate 8 170) ''frame.raw'' ''frame.tga'' ?s
      = Return 0 (?s\<lparr>written := (written ?s)(''frame.tga'' \<mapsto>
            [0, 0, 2, 0, 0, 0, 0, 0, 0, 0, 0, 0, 1, 0, 1, 0, 24, 32, 0, 127, 255])\<rparr>)"
    using pipeline_one_block [OF a b c] by (elim conjE)
  with a b c show ?thesis by simp
qed


subsection \<open>A uniform frame through the whole program\<close>






end
